theory Spec2Isabelle
  imports Main "HOL-Library.AList"
begin

section \<open>The session manager of vivarium (src/service/session-manager.ts)\<close>

text \<open>
  The class \<^verbatim>\<open>SessionManager\<close> keeps a JavaScript \<^verbatim>\<open>Map\<close> from session ids to
  sessions, each owning one \<^verbatim>\<open>PyodidePythonEnvironment\<close>. Its methods are partly
  \<^verbatim>\<open>async\<close>: they run without interruption up to an \<^verbatim>\<open>await\<close>, where other
  callers may run before the method is resumed. The model below keeps this structure:
  every method is a function on the manager's state that runs up to the first
  \<^verbatim>\<open>await\<close> and returns either a settled result or the suspended rest of the method
  (a \<open>task\<close>); \<open>resume\<close> runs a suspended task up to its next \<^verbatim>\<open>await\<close>.
  An \<^verbatim>\<open>await\<close> of the manager's own \<^verbatim>\<open>createSession\<close> in
  \<^verbatim>\<open>getOrCreateSession\<close> changes nothing when it is resumed and is not a step of its
  own; the \<^verbatim>\<open>await\<close> of \<^verbatim>\<open>removeSession\<close> in the two loops is one, since the
  loop goes on to read the registry.

  What lies outside the file is a parameter of the model:
  \<^item> \<^verbatim>\<open>Date.now()\<close> is a clock \<open>clk\<close>: the \<open>n\<close>-th call made by the manager returns
    \<open>clk n\<close> (milliseconds, an integer);
  \<^item> the class \<^verbatim>\<open>PyodidePythonEnvironment\<close> (\<^verbatim>\<open>./python-interpreter\<close>) is not
    among the sources. An environment is a handle, the number of its construction; its
    methods \<^verbatim>\<open>init\<close>, \<^verbatim>\<open>terminate\<close> and \<^verbatim>\<open>cleanup\<close> return promises that are
    resolved or rejected from outside, in any way. Each call is recorded in
    \<open>envCalls\<close>.
  A session object is mutated in place by \<^verbatim>\<open>getSession\<close>; in the model the entry
  of the registry is replaced and a caller receives the session as it is at that
  moment. Sessions are told apart by their environment. The timeout is a whole number
  of minutes. Console output is not modelled. \<^verbatim>\<open>getSessionsInfo\<close> reports ages in
  milliseconds (the source divides by 60000 in floating point).
\<close>

subsection \<open>Data\<close>

type_synonym env = nat

record session =
  id' :: string
  environment :: env
  createdAt :: int
  lastAccessedAt :: int

text \<open>A call of a method of an environment; the handle is the number of the
  \<^verbatim>\<open>new PyodidePythonEnvironment()\<close> that made it.\<close>

datatype envcall = Init env | Terminate env | Cleanup env

text \<open>How an awaited promise of the environment settles; a rejection carries the
  error's message.\<close>

datatype outcome = Resolved | Rejected string

type_synonym clock = "nat \<Rightarrow> int"

text \<open>The fields of the class (\<open>sessions\<close> in the insertion order of the
  \<^verbatim>\<open>Map\<close>, \<open>cleanupInterval = None\<close> for \<^verbatim>\<open>null\<close>), and three counters of the
  world around it: the calls of \<^verbatim>\<open>Date.now()\<close> made so far, the environments
  constructed so far, and the calls made to environments.\<close>

record manager =
  sessions :: "(string \<times> session) list"
  sessionTimeout :: int
  cleanupInterval :: "int option"
  cleanupIntervalMs :: int
  reads :: nat
  constructed :: nat
  envCalls :: "envcall list"

text \<open>What a method returns or throws.\<close>

datatype result =
    RSession session
  | RNull
  | RBool bool
  | RNumber nat
  | RVoid
  | RInfo "(string \<times> int \<times> int \<times> int \<times> int) list"
  | RError string

text \<open>The caller that awaits a \<^verbatim>\<open>removeSession\<close>: an outside caller, the loop of
  \<^verbatim>\<open>cleanupExpiredSessions\<close> (the ids still to remove and
  \<^verbatim>\<open>expiredSessions.length\<close>), or the loop of \<^verbatim>\<open>shutdown\<close>.\<close>

datatype frame =
    Return
  | CleanupLoop "string list" nat
  | ShutdownLoop "string list"

text \<open>A suspended method: \<^verbatim>\<open>createSession\<close> at \<^verbatim>\<open>await environment.init()\<close>,
  \<^verbatim>\<open>removeSession\<close> at \<^verbatim>\<open>await session.environment.terminate()\<close> and at
  \<^verbatim>\<open>await session.environment.cleanup()\<close>, and a loop at
  \<^verbatim>\<open>await this.removeSession(sessionId)\<close> once that call has returned.\<close>

datatype task =
    AwaitInit string env
  | AwaitTerminate string session frame
  | AwaitCleanup string session frame
  | AwaitRemoveSession bool frame

datatype status = Pending task | Settled result

subsection \<open>The methods\<close>

definition date_now :: "clock \<Rightarrow> manager \<Rightarrow> int \<times> manager" where
  "date_now clk m = (clk (reads m), m\<lparr>reads := Suc (reads m)\<rparr>)"

definition startCleanupInterval :: "manager \<Rightarrow> manager" where
  "startCleanupInterval m = m\<lparr>cleanupInterval := Some (cleanupIntervalMs m)\<rparr>"

definition new_SessionManager :: "int \<Rightarrow> manager" where
  "new_SessionManager sessionTimeoutMinutes =
     startCleanupInterval
       \<lparr>sessions = [], sessionTimeout = sessionTimeoutMinutes * 60 * 1000,
        cleanupInterval = None, cleanupIntervalMs = 60 * 1000,
        reads = 0, constructed = 0, envCalls = []\<rparr>"

definition stopCleanupInterval :: "manager \<Rightarrow> manager" where
  "stopCleanupInterval m =
     (if cleanupInterval m \<noteq> None then m\<lparr>cleanupInterval := None\<rparr> else m)"

definition createSession :: "string \<Rightarrow> manager \<Rightarrow> manager \<times> status" where
  "createSession sessionId m =
     (if map_of (sessions m) sessionId \<noteq> None
      then (m, Settled (RError (''Session with id '' @ sessionId @ '' already exists'')))
      else
        (let e = constructed m
         in (m\<lparr>constructed := Suc e, envCalls := envCalls m @ [Init e]\<rparr>,
             Pending (AwaitInit sessionId e))))"

definition createSession_resume ::
  "clock \<Rightarrow> string \<Rightarrow> env \<Rightarrow> outcome \<Rightarrow> manager \<Rightarrow> manager \<times> status" where
  "createSession_resume clk sessionId e out m =
     (case out of
        Rejected err \<Rightarrow> (m, Settled (RError err))
      | Resolved \<Rightarrow>
          (let (t1, m1) = date_now clk m;
               (t2, m2) = date_now clk m1;
               s = \<lparr>id' = sessionId, environment = e, createdAt = t1, lastAccessedAt = t2\<rparr>
           in (m2\<lparr>sessions := AList.update sessionId s (sessions m2)\<rparr>,
               Settled (RSession s))))"

definition getSession :: "clock \<Rightarrow> string \<Rightarrow> manager \<Rightarrow> manager \<times> session option" where
  "getSession clk sessionId m =
     (case map_of (sessions m) sessionId of
        Some s \<Rightarrow>
          (let (now, m1) = date_now clk m;
               s' = s\<lparr>lastAccessedAt := now\<rparr>
           in (m1\<lparr>sessions := AList.update sessionId s' (sessions m1)\<rparr>, Some s'))
      | None \<Rightarrow> (m, None))"

definition getOrCreateSession :: "clock \<Rightarrow> string \<Rightarrow> manager \<Rightarrow> manager \<times> status" where
  "getOrCreateSession clk sessionId m =
     (case getSession clk sessionId m of
        (m1, Some existingSession) \<Rightarrow> (m1, Settled (RSession existingSession))
      | (m1, None) \<Rightarrow> createSession sessionId m1)"

text \<open>\<^verbatim>\<open>removeSession\<close> returns to the frame that called it: an outside caller gets
  the settled promise, a loop is resumed later.\<close>

definition return_to :: "frame \<Rightarrow> bool \<Rightarrow> status" where
  "return_to k b = (case k of Return \<Rightarrow> Settled (RBool b) | _ \<Rightarrow> Pending (AwaitRemoveSession b k))"

definition removeSession :: "string \<Rightarrow> frame \<Rightarrow> manager \<Rightarrow> manager \<times> status" where
  "removeSession sessionId k m =
     (case map_of (sessions m) sessionId of
        None \<Rightarrow> (m, return_to k False)
      | Some s \<Rightarrow>
          (m\<lparr>envCalls := envCalls m @ [Terminate (environment s)]\<rparr>,
           Pending (AwaitTerminate sessionId s k)))"

text \<open>The end of \<^verbatim>\<open>removeSession\<close>, after the \<^verbatim>\<open>try\<close> block or its
  \<^verbatim>\<open>catch\<close>.\<close>

definition removeSession_delete :: "string \<Rightarrow> frame \<Rightarrow> manager \<Rightarrow> manager \<times> status" where
  "removeSession_delete sessionId k m =
     (m\<lparr>sessions := AList.delete sessionId (sessions m)\<rparr>, return_to k True)"

definition isSessionExpired :: "clock \<Rightarrow> session \<Rightarrow> manager \<Rightarrow> bool \<times> manager" where
  "isSessionExpired clk s m =
     (let (now, m1) = date_now clk m;
          timeSinceLastAccess = now - lastAccessedAt s
      in (timeSinceLastAccess \<ge> sessionTimeout m, m1))"

text \<open>The first loop of \<^verbatim>\<open>cleanupExpiredSessions\<close>, over
  \<^verbatim>\<open>this.sessions.entries()\<close>.\<close>

fun findExpired ::
  "clock \<Rightarrow> (string \<times> session) list \<Rightarrow> string list \<Rightarrow> manager \<Rightarrow> string list \<times> manager" where
  "findExpired clk [] expiredSessions m = (expiredSessions, m)"
| "findExpired clk ((sessionId, s) # rest) expiredSessions m =
     (let (expired, m1) = isSessionExpired clk s m
      in findExpired clk rest
           (if expired then expiredSessions @ [sessionId] else expiredSessions) m1)"

text \<open>The second loop, up to the first \<^verbatim>\<open>await\<close> that suspends it.\<close>

fun cleanupLoop :: "string list \<Rightarrow> nat \<Rightarrow> manager \<Rightarrow> manager \<times> status" where
  "cleanupLoop [] n m = (m, Settled (RNumber n))"
| "cleanupLoop (sessionId # rest) n m = removeSession sessionId (CleanupLoop rest n) m"

definition cleanupExpiredSessions :: "clock \<Rightarrow> manager \<Rightarrow> manager \<times> status" where
  "cleanupExpiredSessions clk m =
     (let (now, m0) = date_now clk m;
          (expiredSessions, m1) = findExpired clk (sessions m0) [] m0
      in if length expiredSessions > 0
         then cleanupLoop expiredSessions (length expiredSessions) m1
         else (m1, Settled (RNumber (length expiredSessions))))"

definition getActiveSessionCount :: "manager \<Rightarrow> nat" where
  "getActiveSessionCount m = length (sessions m)"

definition getSessionsInfo ::
  "clock \<Rightarrow> manager \<Rightarrow> (string \<times> int \<times> int \<times> int \<times> int) list \<times> manager" where
  "getSessionsInfo clk m =
     (let (now, m1) = date_now clk m
      in (map (\<lambda>(k, s). (id' s, createdAt s, lastAccessedAt s,
                           now - createdAt s, now - lastAccessedAt s)) (sessions m1),
          m1))"

fun shutdownLoop :: "string list \<Rightarrow> manager \<Rightarrow> manager \<times> status" where
  "shutdownLoop [] m = (m, Settled RVoid)"
| "shutdownLoop (sessionId # rest) m = removeSession sessionId (ShutdownLoop rest) m"

definition shutdown :: "manager \<Rightarrow> manager \<times> status" where
  "shutdown m =
     (let m1 = stopCleanupInterval m;
          sessionIds = map fst (sessions m1)
      in shutdownLoop sessionIds m1)"

subsection \<open>Resuming a suspended method\<close>

fun resume :: "clock \<Rightarrow> outcome \<Rightarrow> task \<Rightarrow> manager \<Rightarrow> manager \<times> status" where
  "resume clk out (AwaitInit sessionId e) m = createSession_resume clk sessionId e out m"
| "resume clk out (AwaitTerminate sessionId s k) m =
     (case out of
        Resolved \<Rightarrow>
          (m\<lparr>envCalls := envCalls m @ [Cleanup (environment s)]\<rparr>,
           Pending (AwaitCleanup sessionId s k))
      | Rejected err \<Rightarrow> removeSession_delete sessionId k m)"
| "resume clk out (AwaitCleanup sessionId s k) m = removeSession_delete sessionId k m"
| "resume clk out (AwaitRemoveSession b Return) m = (m, Settled (RBool b))"
| "resume clk out (AwaitRemoveSession b (CleanupLoop rest n)) m = cleanupLoop rest n m"
| "resume clk out (AwaitRemoveSession b (ShutdownLoop rest)) m = shutdownLoop rest m"

subsection \<open>Callers, promises and interleaving\<close>

datatype call =
    CreateSession string
  | GetSession string
  | GetOrCreateSession string
  | RemoveSession string
  | ManualCleanup
  | Shutdown
  | StopCleanupInterval
  | GetActiveSessionCount
  | GetSessionsInfo

fun invoke :: "clock \<Rightarrow> call \<Rightarrow> manager \<Rightarrow> manager \<times> status" where
  "invoke clk (CreateSession sessionId) m = createSession sessionId m"
| "invoke clk (GetSession sessionId) m =
     (case getSession clk sessionId m of
        (m1, Some s) \<Rightarrow> (m1, Settled (RSession s))
      | (m1, None) \<Rightarrow> (m1, Settled RNull))"
| "invoke clk (GetOrCreateSession sessionId) m = getOrCreateSession clk sessionId m"
| "invoke clk (RemoveSession sessionId) m = removeSession sessionId Return m"
| "invoke clk ManualCleanup m = cleanupExpiredSessions clk m"
| "invoke clk Shutdown m = shutdown m"
| "invoke clk StopCleanupInterval m = (stopCleanupInterval m, Settled RVoid)"
| "invoke clk GetActiveSessionCount m = (m, Settled (RNumber (getActiveSessionCount m)))"
| "invoke clk GetSessionsInfo m = (case getSessionsInfo clk m of (info, m1) \<Rightarrow> (m1, Settled (RInfo info)))"

text \<open>The running program: the manager and the promises handed out, by number.
  An event is a call by some caller (its promise stored under the given number), the
  settling of the environment promise that a suspended method awaits, or the interval
  timer firing, which happens only while the timer is set.\<close>

record runtime =
  mgr :: manager
  promises :: "nat \<Rightarrow> status option"

datatype event = Call nat call | Settle nat outcome | Tick nat

definition start :: "manager \<Rightarrow> runtime" where
  "start m = \<lparr>mgr = m, promises = (\<lambda>p. None)\<rparr>"

definition bind_promise :: "runtime \<Rightarrow> nat \<Rightarrow> manager \<times> status \<Rightarrow> runtime" where
  "bind_promise r p ms = \<lparr>mgr = fst ms, promises = (promises r)(p \<mapsto> snd ms)\<rparr>"

fun step :: "clock \<Rightarrow> event \<Rightarrow> runtime \<Rightarrow> runtime" where
  "step clk (Call p c) r = bind_promise r p (invoke clk c (mgr r))"
| "step clk (Settle p out) r =
     (case promises r p of
        Some (Pending t) \<Rightarrow> bind_promise r p (resume clk out t (mgr r))
      | _ \<Rightarrow> r)"
| "step clk (Tick p) r =
     (if cleanupInterval (mgr r) = None then r
      else bind_promise r p (cleanupExpiredSessions clk (mgr r)))"

fun exec :: "clock \<Rightarrow> event list \<Rightarrow> runtime \<Rightarrow> runtime" where
  "exec clk [] r = r"
| "exec clk (e # es) r = exec clk es (step clk e r)"

subsection \<open>Running one method to its end\<close>

text \<open>Without interleaving, a method is resumed until it settles; \<open>envs\<close> says how
  each call to an environment settles. The promise a loop awaits at
  \<^verbatim>\<open>await this.removeSession(sessionId)\<close> is the manager's own and has resolved.\<close>

fun awaited :: "(envcall \<Rightarrow> outcome) \<Rightarrow> task \<Rightarrow> outcome" where
  "awaited envs (AwaitInit sessionId e) = envs (Init e)"
| "awaited envs (AwaitTerminate sessionId s k) = envs (Terminate (environment s))"
| "awaited envs (AwaitCleanup sessionId s k) = envs (Cleanup (environment s))"
| "awaited envs (AwaitRemoveSession b k) = Resolved"

fun frame_steps :: "frame \<Rightarrow> nat" where
  "frame_steps Return = 0"
| "frame_steps (CleanupLoop rest n) = Suc (3 * length rest)"
| "frame_steps (ShutdownLoop rest) = Suc (3 * length rest)"

fun task_steps :: "task \<Rightarrow> nat" where
  "task_steps (AwaitInit sessionId e) = 1"
| "task_steps (AwaitTerminate sessionId s k) = frame_steps k + 3"
| "task_steps (AwaitCleanup sessionId s k) = frame_steps k + 2"
| "task_steps (AwaitRemoveSession b k) = frame_steps k + 1"

fun status_steps :: "status \<Rightarrow> nat" where
  "status_steps (Settled res) = 0"
| "status_steps (Pending t) = task_steps t"

lemma return_to_steps: "status_steps (return_to k b) \<le> frame_steps k + 1"
  by (cases k) (simp_all add: return_to_def)

lemma removeSession_steps:
  "status_steps (snd (removeSession sessionId k m)) \<le> frame_steps k + 3"
  using return_to_steps [of k False]
  by (simp add: removeSession_def split: option.splits)

lemma resume_steps: "status_steps (snd (resume clk out t m)) < task_steps t"
proof (cases t)
  case (AwaitInit sessionId e)
  then show ?thesis
    by (simp add: createSession_resume_def date_now_def Let_def split: outcome.splits)
next
  case (AwaitTerminate sessionId s k)
  then show ?thesis
    using return_to_steps [of k True]
    by (simp add: removeSession_delete_def split: outcome.splits)
next
  case (AwaitCleanup sessionId s k)
  then show ?thesis
    using return_to_steps [of k True]
    by (simp add: removeSession_delete_def)
next
  case (AwaitRemoveSession b k)
  show ?thesis
  proof (cases k)
    case Return
    with AwaitRemoveSession show ?thesis by simp
  next
    case (CleanupLoop rest n)
    with AwaitRemoveSession show ?thesis
      using removeSession_steps [of "hd rest" "CleanupLoop (tl rest) n" m]
      by (cases rest) simp_all
  next
    case (ShutdownLoop rest)
    with AwaitRemoveSession show ?thesis
      using removeSession_steps [of "hd rest" "ShutdownLoop (tl rest)" m]
      by (cases rest) simp_all
  qed
qed

function run :: "clock \<Rightarrow> (envcall \<Rightarrow> outcome) \<Rightarrow> manager \<times> status \<Rightarrow> manager \<times> result" where
  "run clk envs (m, Settled res) = (m, res)"
| "run clk envs (m, Pending t) = run clk envs (resume clk (awaited envs t) t m)"
  by pat_completeness auto
termination
proof (relation "measure (\<lambda>(clk, envs, ms). status_steps (snd ms))")
  show "wf (measure (\<lambda>(clk, envs, ms). status_steps (snd ms)))" by simp
next
  fix clk :: clock and envs :: "envcall \<Rightarrow> outcome" and m :: manager and t :: task
  show "((clk, envs, resume clk (awaited envs t) t m), (clk, envs, m, Pending t))
          \<in> measure (\<lambda>(clk, envs, ms). status_steps (snd ms))"
    using resume_steps [of clk "awaited envs t" t m] by simp
qed

section \<open>Notions used in the statements\<close>

text \<open>What \<^verbatim>\<open>removeSession\<close> asks of the environment of a session it found, given
  how the environment answers: \<^verbatim>\<open>terminate\<close>, and \<^verbatim>\<open>cleanup\<close> after a
  \<^verbatim>\<open>terminate\<close> that resolved.\<close>

definition teardown :: "(envcall \<Rightarrow> outcome) \<Rightarrow> session \<Rightarrow> envcall list" where
  "teardown envs s =
     (case envs (Terminate (environment s)) of
        Resolved \<Rightarrow> [Terminate (environment s), Cleanup (environment s)]
      | Rejected err \<Rightarrow> [Terminate (environment s)])"

text \<open>The state after removing the ids \<open>ks\<close> one after the other, each found
  session torn down as \<open>teardown\<close> says.\<close>

fun remove_all :: "(envcall \<Rightarrow> outcome) \<Rightarrow> string list \<Rightarrow> manager \<Rightarrow> manager" where
  "remove_all envs [] m = m"
| "remove_all envs (k # ks) m =
     remove_all envs ks
       (case map_of (sessions m) k of
          None \<Rightarrow> m
        | Some s \<Rightarrow> m\<lparr>envCalls := envCalls m @ teardown envs s,
                       sessions := AList.delete k (sessions m)\<rparr>)"

text \<open>A sweep examines the entries of the registry in order. It calls
  \<^verbatim>\<open>Date.now()\<close> once at its start and once for every entry, so the entry at
  position \<open>i\<close> is judged at the reading numbered \<open>Suc (reads m) + i\<close>;
  \<open>checked\<close> pairs every entry with that number and \<open>idle_at\<close> is the idle
  duration \<^verbatim>\<open>now - lastAccessedAt\<close> the check computes.\<close>

definition checked :: "manager \<Rightarrow> (nat \<times> string \<times> session) list" where
  "checked m = enumerate (Suc (reads m)) (sessions m)"

definition idle_at :: "clock \<Rightarrow> nat \<times> string \<times> session \<Rightarrow> int" where
  "idle_at clk c = clk (fst c) - lastAccessedAt (snd (snd c))"

text \<open>Every session a lookup can return was created no later than it was last
  accessed, and last accessed no later than the next reading of the clock.\<close>

definition stamped :: "clock \<Rightarrow> manager \<Rightarrow> bool" where
  "stamped clk m \<longleftrightarrow>
     (\<forall>k s. map_of (sessions m) k = Some s \<longrightarrow>
        createdAt s \<le> lastAccessedAt s \<and> lastAccessedAt s \<le> clk (reads m))"

subsection \<open>Concrete clocks, environments and runs\<close>

text \<open>\<open>clock1\<close> advances by one millisecond with every reading; \<open>clock2\<close>
  stands at 0 for two readings and is past 700 seconds afterwards; \<open>clock3\<close> has
  stopped at 2000 seconds.\<close>

definition clock1 :: clock where
  "clock1 n = 1000 + int n"

definition clock2 :: clock where
  "clock2 n = (if n < 2 then 0 else 700000 + int n)"

definition clock3 :: clock where
  "clock3 n = 2000000"

definition terminate_fails :: "envcall \<Rightarrow> outcome" where
  "terminate_fails c = (case c of Terminate e \<Rightarrow> Rejected ''terminate failed'' | _ \<Rightarrow> Resolved)"

definition init_fails :: "envcall \<Rightarrow> outcome" where
  "init_fails c = (case c of Init e \<Rightarrow> Rejected ''init failed'' | _ \<Rightarrow> Resolved)"

text \<open>A manager with the session \<open>''a''\<close>, and one with \<open>''a''\<close> created at
  time 0 and \<open>''b''\<close> created 700 seconds later (timeout: 10 minutes).\<close>

definition one_session :: manager where
  "one_session =
     fst (run clock1 (\<lambda>c. Resolved)
            (invoke clock1 (GetOrCreateSession ''a'') (new_SessionManager 10)))"

definition two_sessions :: manager where
  "two_sessions =
     fst (run clock2 (\<lambda>c. Resolved) (invoke clock2 (GetOrCreateSession ''b'')
       (fst (run clock2 (\<lambda>c. Resolved) (invoke clock2 (GetOrCreateSession ''a'')
          (new_SessionManager 10))))))"

text \<open>Interleaved runs: one caller creating \<open>''a''\<close>; two callers asking for
  \<open>''a''\<close> before either \<^verbatim>\<open>init\<close> has settled; a lookup of \<open>''a''\<close> while its
  removal waits for \<^verbatim>\<open>terminate\<close>.\<close>

definition created_a :: runtime where
  "created_a = exec clock1 [Call 0 (GetOrCreateSession ''a''), Settle 0 Resolved]
                 (start (new_SessionManager 10))"

definition two_callers :: runtime where
  "two_callers = exec clock1
     [Call 0 (GetOrCreateSession ''a''), Call 1 (GetOrCreateSession ''a''),
      Settle 0 Resolved, Settle 1 Resolved] (start (new_SessionManager 10))"

definition lookup_during_teardown :: runtime where
  "lookup_during_teardown =
     exec clock1
       [Call 0 (GetOrCreateSession ''a''), Settle 0 Resolved,
        Call 1 (RemoveSession ''a''), Call 2 (GetSession ''a'')]
       (start (new_SessionManager 10))"

text \<open>Lookups of \<open>''a''\<close> by several callers, with a timer tick between them.\<close>

definition three_lookups :: "event list" where
  "three_lookups = [Call 1 (GetSession ''a''), Call 2 (GetOrCreateSession ''a''), Tick 3,
                    Call 4 (GetSession ''a'')]"

text \<open>\<open>clock4\<close> stands at 0 for four readings and is past 700 seconds
  afterwards.\<close>

definition clock4 :: clock where
  "clock4 n = (if n < 4 then 0 else 700000 + int n)"

text \<open>More interleaved runs: a removal of \<open>''a''\<close> suspended at \<^verbatim>\<open>cleanup\<close>; a creation of \<open>''bad''\<close> suspended at \<^verbatim>\<open>init\<close>; a
  creation of \<open>''bad''\<close> that fails while another caller's creation of \<open>''bad''\<close>
  succeeds, followed by a third call; a sweep during which \<open>''b''\<close> is removed and
  created again by other callers; a shutdown during which \<open>''b''\<close> is created.\<close>

definition removal_at_cleanup :: runtime where
  "removal_at_cleanup =
     exec clock1
       [Call 0 (GetOrCreateSession ''a''), Settle 0 Resolved,
        Call 1 (RemoveSession ''a''), Settle 1 Resolved]
       (start (new_SessionManager 10))"



definition sweep_race :: runtime where
  "sweep_race =
     exec clock4
       [Call 0 (GetOrCreateSession ''a''), Settle 0 Resolved,
        Call 1 (GetOrCreateSession ''b''), Settle 1 Resolved,
        Call 2 ManualCleanup,
        Call 3 (RemoveSession ''b''), Settle 3 Resolved, Settle 3 Resolved,
        Call 4 (GetOrCreateSession ''b''), Settle 4 Resolved,
        Settle 2 Resolved, Settle 2 Resolved, Settle 2 Resolved,
        Settle 2 Resolved, Settle 2 Resolved, Settle 2 Resolved]
       (start (new_SessionManager 10))"

definition shutdown_race :: runtime where
  "shutdown_race =
     exec clock1
       [Call 0 (GetOrCreateSession ''a''), Settle 0 Resolved,
        Call 1 Shutdown,
        Call 2 (GetOrCreateSession ''b''), Settle 2 Resolved,
        Settle 1 Resolved, Settle 1 Resolved, Settle 1 Resolved]
       (start (new_SessionManager 10))"


section \<open>Lemmas\<close>

subsection \<open>Running removals and sweeps to their end\<close>

lemmas model_defs = new_SessionManager_def startCleanupInterval_def stopCleanupInterval_def
  createSession_def createSession_resume_def getSession_def getOrCreateSession_def return_to_def
  removeSession_def removeSession_delete_def isSessionExpired_def cleanupExpiredSessions_def
  getActiveSessionCount_def getSessionsInfo_def shutdown_def date_now_def start_def
  bind_promise_def Let_def

lemma run_return_to:
  "run clk envs (m, return_to k b) =
     (case k of Return \<Rightarrow> (m, RBool b)
      | CleanupLoop rest n \<Rightarrow> run clk envs (cleanupLoop rest n m)
      | ShutdownLoop rest \<Rightarrow> run clk envs (shutdownLoop rest m))"
  by (cases k) (simp_all add: return_to_def)

lemma run_removeSession_present:
  assumes "map_of (sessions m) sessionId = Some s"
  shows "run clk envs (removeSession sessionId k m) =
           run clk envs
             (m\<lparr>envCalls := envCalls m @ teardown envs s,
                sessions := AList.delete sessionId (sessions m)\<rparr>, return_to k True)"
  using assms
  by (cases "envs (Terminate (environment s))")
     (simp_all add: removeSession_def removeSession_delete_def teardown_def)

lemma run_removeSession_absent:
  assumes "map_of (sessions m) sessionId = None"
  shows "run clk envs (removeSession sessionId k m) = run clk envs (m, return_to k False)"
  using assms by (simp add: removeSession_def)

lemma run_shutdownLoop:
  "run clk envs (shutdownLoop ks m) = (remove_all envs ks m, RVoid)"
proof (induction ks arbitrary: m)
  case Nil
  show ?case by simp
next
  case (Cons k ks)
  show ?case
  proof (cases "map_of (sessions m) k")
    case None
    then show ?thesis
      by (simp add: run_removeSession_absent run_return_to Cons.IH)
  next
    case (Some s)
    then show ?thesis
      by (simp add: run_removeSession_present run_return_to Cons.IH)
  qed
qed

lemma run_cleanupLoop:
  "run clk envs (cleanupLoop ks n m) = (remove_all envs ks m, RNumber n)"
proof (induction ks arbitrary: m)
  case Nil
  show ?case by simp
next
  case (Cons k ks)
  show ?case
  proof (cases "map_of (sessions m) k")
    case None
    then show ?thesis
      by (simp add: run_removeSession_absent run_return_to Cons.IH)
  next
    case (Some s)
    then show ?thesis
      by (simp add: run_removeSession_present run_return_to Cons.IH)
  qed
qed

lemma sessions_remove_all:
  "sessions (remove_all envs ks m) = filter (\<lambda>p. fst p \<notin> set ks) (sessions m)"
proof (induction ks arbitrary: m)
  case Nil
  show ?case by simp
next
  case (Cons k ks)
  have absent: "map_of (sessions m) k = None \<Longrightarrow> AList.delete k (sessions m) = sessions m"
    by (simp add: map_of_eq_None_iff)
  have del: "filter (\<lambda>p. fst p \<notin> set ks) (AList.delete k (sessions m))
               = filter (\<lambda>p. fst p \<notin> set (k # ks)) (sessions m)"
    by (auto simp: AList.delete_eq intro: filter_cong)
  show ?case
    using absent del by (cases "map_of (sessions m) k") (simp_all add: Cons.IH)
qed

lemma frame_remove_all:
  "cleanupInterval (remove_all envs ks m) = cleanupInterval m \<and>
   reads (remove_all envs ks m) = reads m \<and>
   constructed (remove_all envs ks m) = constructed m \<and>
   sessionTimeout (remove_all envs ks m) = sessionTimeout m \<and>
   cleanupIntervalMs (remove_all envs ks m) = cleanupIntervalMs m"
  by (induction ks arbitrary: m) (simp_all split: option.splits)

lemma envCalls_remove_all:
  "distinct ks \<Longrightarrow>
   envCalls (remove_all envs ks m) =
     envCalls m @ concat (map (\<lambda>k. case map_of (sessions m) k of None \<Rightarrow> [] | Some s \<Rightarrow> teardown envs s) ks)"
proof (induction ks arbitrary: m)
  case Nil
  show ?case by simp
next
  case (Cons k ks)
  have other: "\<And>al j. j \<in> set ks \<Longrightarrow> map_of (AList.delete k al) j = map_of al j"
    using Cons.prems by (auto simp: AList.delete_conv')
  show ?case
  proof (cases "map_of (sessions m) k")
    case None
    with Cons show ?thesis by simp
  next
    case (Some s)
    let ?m1 = "m\<lparr>envCalls := envCalls m @ teardown envs s,
                  sessions := AList.delete k (sessions m)\<rparr>"
    have eq: "map (\<lambda>j. case map_of (sessions ?m1) j of None \<Rightarrow> [] | Some s \<Rightarrow> teardown envs s) ks
          = map (\<lambda>j. case map_of (sessions m) j of None \<Rightarrow> [] | Some s \<Rightarrow> teardown envs s) ks"
      by (intro map_cong refl) (simp add: other)
    have "envCalls (remove_all envs (k # ks) m) = envCalls (remove_all envs ks ?m1)"
      using Some by simp
    also have "\<dots> = envCalls ?m1 @ concat (map (\<lambda>j. case map_of (sessions ?m1) j of None \<Rightarrow> [] | Some s \<Rightarrow> teardown envs s) ks)"
      using Cons.prems by (intro Cons.IH) simp
    also have "\<dots> = envCalls m @ teardown envs s @ concat (map (\<lambda>j. case map_of (sessions m) j of None \<Rightarrow> [] | Some s \<Rightarrow> teardown envs s) ks)"
      unfolding eq by simp
    finally show ?thesis using Some by simp
  qed
qed

lemma teardown_of_keys:
  "distinct (map fst xs) \<Longrightarrow>
   map (\<lambda>k. case map_of xs k of None \<Rightarrow> [] | Some s \<Rightarrow> f s) (map fst xs) = map (\<lambda>p. f (snd p)) xs"
  by (auto simp: o_def)


lemma findExpired_eq:
  "findExpired clk xs acc m =
     (acc @ map (fst \<circ> snd)
              (filter (\<lambda>(i, k, s). sessionTimeout m \<le> clk i - lastAccessedAt s)
                 (enumerate (reads m) xs)),
      m\<lparr>reads := reads m + length xs\<rparr>)"
proof (induction xs arbitrary: acc m)
  case Nil
  show ?case by simp
next
  case (Cons x xs)
  obtain k s where x: "x = (k, s)" by (cases x)
  show ?case
    by (simp add: x isSessionExpired_def date_now_def Cons.IH)
qed

lemma filter_keys_of_selected:
  assumes "distinct (map (fst \<circ> snd) zs)"
  shows "filter (\<lambda>p. fst p \<notin> set (map (fst \<circ> snd) (filter P zs))) (map snd zs)
           = map snd (filter (\<lambda>z. \<not> P z) zs)"
proof -
  have inj: "inj_on (fst \<circ> snd) (set zs)"
    using assms by (simp add: distinct_map)
  have "\<And>z. z \<in> set zs \<Longrightarrow>
          (fst (snd z) \<notin> set (map (fst \<circ> snd) (filter P zs))) = (\<not> P z)"
  proof -
    fix z assume z: "z \<in> set zs"
    show "(fst (snd z) \<notin> set (map (fst \<circ> snd) (filter P zs))) = (\<not> P z)"
    proof (cases "P z")
      case True
      with z show ?thesis by force
    next
      case False
      have "fst (snd z) \<notin> set (map (fst \<circ> snd) (filter P zs))"
      proof
        assume "fst (snd z) \<in> set (map (fst \<circ> snd) (filter P zs))"
        then obtain y where y: "y \<in> set zs" "P y" "fst (snd y) = fst (snd z)" by auto
        with inj z have "y = z" by (auto simp: inj_on_def)
        with y False show False by simp
      qed
      with False show ?thesis by simp
    qed
  qed
  then show ?thesis
    by (simp add: filter_map o_def cong: filter_cong)
qed

lemma run_cleanupExpiredSessions:
  "run clk envs (cleanupExpiredSessions clk m) =
     (let expired = map (fst \<circ> snd) (filter (\<lambda>c. sessionTimeout m \<le> idle_at clk c) (checked m))
      in (remove_all envs expired (m\<lparr>reads := Suc (reads m) + length (sessions m)\<rparr>),
          RNumber (length expired)))"
proof -
  have P: "(\<lambda>(i, k, s). sessionTimeout m \<le> clk i - lastAccessedAt s)
            = (\<lambda>c. sessionTimeout m \<le> idle_at clk c)"
    by (auto simp: idle_at_def)
  show ?thesis
    by (simp add: cleanupExpiredSessions_def date_now_def findExpired_eq P checked_def
        run_cleanupLoop Let_def)
qed

subsection \<open>What one step does to the registry\<close>

lemma removeSession_keeps:
  "sessions (fst (removeSession sessionId k m)) = sessions m \<and>
   reads (fst (removeSession sessionId k m)) = reads m"
  by (simp add: removeSession_def split: option.splits)

lemma cleanupLoop_keeps:
  "sessions (fst (cleanupLoop ks n m)) = sessions m \<and> reads (fst (cleanupLoop ks n m)) = reads m"
  by (cases ks) (simp_all add: removeSession_keeps)

lemma shutdownLoop_keeps:
  "sessions (fst (shutdownLoop ks m)) = sessions m \<and> reads (fst (shutdownLoop ks m)) = reads m"
  by (cases ks) (simp_all add: removeSession_keeps)

lemma cleanupExpiredSessions_keeps:
  "sessions (fst (cleanupExpiredSessions clk m)) = sessions m \<and>
   reads (fst (cleanupExpiredSessions clk m)) = Suc (reads m) + length (sessions m)"
  by (simp add: cleanupExpiredSessions_def date_now_def findExpired_eq cleanupLoop_keeps Let_def)

lemma stopCleanupInterval_keeps:
  "sessions (stopCleanupInterval m) = sessions m \<and> reads (stopCleanupInterval m) = reads m"
  by (simp add: stopCleanupInterval_def)

lemma shutdown_keeps:
  "sessions (fst (shutdown m)) = sessions m \<and> reads (fst (shutdown m)) = reads m"
  by (simp add: shutdown_def shutdownLoop_keeps stopCleanupInterval_keeps Let_def)

lemma createSession_keeps:
  "sessions (fst (createSession sessionId m)) = sessions m \<and>
   reads (fst (createSession sessionId m)) = reads m"
  by (simp add: createSession_def Let_def)

lemma getSession_entry:
  assumes "map_of (sessions (fst (getSession clk sessionId m))) k = Some s'"
  shows "map_of (sessions m) k = Some s' \<or>
         (\<exists>s. map_of (sessions m) k = Some s \<and> s' = s\<lparr>lastAccessedAt := clk (reads m)\<rparr>)"
  using assms
  by (auto simp: getSession_def date_now_def Let_def AList.update_conv'
      split: option.splits if_splits)

lemma getSession_reads: "reads m \<le> reads (fst (getSession clk sessionId m))"
  by (simp add: getSession_def date_now_def Let_def split: option.splits)

lemma getSession_None:
  "snd (getSession clk sessionId m) = None \<Longrightarrow> fst (getSession clk sessionId m) = m"
  by (simp add: getSession_def date_now_def Let_def split: option.splits)

lemma getSession_present:
  assumes "map_of (sessions m) sessionId = Some s"
  shows "snd (getSession clk sessionId m) = Some (s\<lparr>lastAccessedAt := clk (reads m)\<rparr>) \<and>
         map_of (sessions (fst (getSession clk sessionId m))) sessionId
           = Some (s\<lparr>lastAccessedAt := clk (reads m)\<rparr>) \<and>
         invoke clk (GetOrCreateSession sessionId) m
           = (fst (getSession clk sessionId m),
              Settled (RSession (s\<lparr>lastAccessedAt := clk (reads m)\<rparr>)))"
  using assms
  by (simp add: getOrCreateSession_def getSession_def date_now_def Let_def AList.update_conv')

lemma invoke_entry:
  assumes "map_of (sessions (fst (invoke clk c m))) k = Some s'"
  shows "map_of (sessions m) k = Some s' \<or>
         (\<exists>s. map_of (sessions m) k = Some s \<and> s' = s\<lparr>lastAccessedAt := clk (reads m)\<rparr>)"
proof (cases c)
  case (GetSession sessionId)
  with assms show ?thesis
    using getSession_entry [of clk sessionId m k s']
    by (cases "getSession clk sessionId m") (auto split: option.splits)
next
  case (GetOrCreateSession sessionId)
  show ?thesis
  proof (cases "snd (getSession clk sessionId m)")
    case None
    with assms GetOrCreateSession getSession_None [of clk sessionId m] show ?thesis
      by (cases "getSession clk sessionId m")
         (simp add: getOrCreateSession_def createSession_keeps)
  next
    case (Some s)
    with assms GetOrCreateSession show ?thesis
      using getSession_entry [of clk sessionId m k s']
      by (cases "getSession clk sessionId m") (simp add: getOrCreateSession_def)
  qed
next
  case GetSessionsInfo
  with assms show ?thesis
    by (simp add: getSessionsInfo_def date_now_def Let_def)
qed (use assms in \<open>simp_all add: createSession_keeps removeSession_keeps
      cleanupExpiredSessions_keeps shutdown_keeps stopCleanupInterval_keeps\<close>)

lemma invoke_reads: "reads m \<le> reads (fst (invoke clk c m))"
proof (cases c)
  case (GetSession sessionId)
  then show ?thesis
    using getSession_reads [of m clk sessionId]
    by (cases "getSession clk sessionId m") (auto split: option.splits)
next
  case (GetOrCreateSession sessionId)
  then show ?thesis
    using getSession_reads [of m clk sessionId]
    by (cases "getSession clk sessionId m")
       (auto simp: getOrCreateSession_def createSession_keeps split: option.splits)
next
  case GetSessionsInfo
  then show ?thesis
    by (simp add: getSessionsInfo_def date_now_def Let_def)
qed (simp_all add: createSession_keeps removeSession_keeps
      cleanupExpiredSessions_keeps shutdown_keeps stopCleanupInterval_keeps)

lemma removeSession_delete_entry:
  "map_of (sessions (fst (removeSession_delete sessionId k m))) j = Some s' \<Longrightarrow>
   map_of (sessions m) j = Some s'"
  by (simp add: removeSession_delete_def AList.delete_conv' split: if_splits)

lemma resume_entry:
  assumes "map_of (sessions (fst (resume clk out t m))) k = Some s'"
  shows "map_of (sessions m) k = Some s' \<or>
         (\<exists>e. t = AwaitInit k e \<and> out = Resolved \<and>
              s' = \<lparr>id' = k, environment = e, createdAt = clk (reads m),
                    lastAccessedAt = clk (Suc (reads m))\<rparr> \<and>
              reads (fst (resume clk out t m)) = Suc (Suc (reads m)))"
proof (cases t)
  case (AwaitInit sessionId e)
  with assms show ?thesis
    by (cases out)
       (auto simp: createSession_resume_def date_now_def Let_def AList.update_conv'
          split: if_splits)
next
  case (AwaitTerminate sessionId s f)
  with assms show ?thesis
    using removeSession_delete_entry [of sessionId f m k s']
    by (cases out) simp_all
next
  case (AwaitCleanup sessionId s f)
  with assms show ?thesis
    using removeSession_delete_entry [of sessionId f m k s'] by simp
next
  case (AwaitRemoveSession b f)
  with assms show ?thesis
    by (cases f) (simp_all add: cleanupLoop_keeps shutdownLoop_keeps)
qed

lemma resume_reads: "reads m \<le> reads (fst (resume clk out t m))"
proof (cases t)
  case (AwaitInit sessionId e)
  then show ?thesis
    by (cases out) (simp_all add: createSession_resume_def date_now_def Let_def)
next
  case (AwaitTerminate sessionId s f)
  then show ?thesis by (cases out) (simp_all add: removeSession_delete_def)
next
  case (AwaitCleanup sessionId s f)
  then show ?thesis by (simp add: removeSession_delete_def)
next
  case (AwaitRemoveSession b f)
  then show ?thesis
    by (cases f) (simp_all add: cleanupLoop_keeps shutdownLoop_keeps)
qed

lemma step_reads: "reads (mgr r) \<le> reads (mgr (step clk e r))"
proof (cases e)
  case (Call p c)
  then show ?thesis by (simp add: bind_promise_def invoke_reads)
next
  case (Settle p out)
  then show ?thesis
    by (auto simp: bind_promise_def resume_reads split: option.splits status.splits)
next
  case (Tick p)
  then show ?thesis by (simp add: bind_promise_def cleanupExpiredSessions_keeps)
qed

lemma step_entry:
  assumes "map_of (sessions (mgr (step clk e r))) k = Some s'"
  shows "map_of (sessions (mgr r)) k = Some s' \<or>
         (\<exists>s. map_of (sessions (mgr r)) k = Some s \<and>
              s' = s\<lparr>lastAccessedAt := clk (reads (mgr r))\<rparr>) \<or>
         (\<exists>p env. e = Settle p Resolved \<and> promises r p = Some (Pending (AwaitInit k env)) \<and>
              s' = \<lparr>id' = k, environment = env, createdAt = clk (reads (mgr r)),
                    lastAccessedAt = clk (Suc (reads (mgr r)))\<rparr> \<and>
              reads (mgr (step clk e r)) = Suc (Suc (reads (mgr r))))"
proof (cases e)
  case (Call p c)
  with assms show ?thesis
    using invoke_entry [of clk c "mgr r" k s'] by (simp add: bind_promise_def)
next
  case (Settle p out)
  show ?thesis
  proof (cases "promises r p")
    case None
    with assms Settle show ?thesis by simp
  next
    case (Some st)
    show ?thesis
    proof (cases st)
      case (Settled res)
      with assms Settle Some show ?thesis by simp
    next
      case (Pending t)
      with assms Settle Some show ?thesis
        using resume_entry [of clk out t "mgr r" k s'] by (auto simp: bind_promise_def)
    qed
  qed
next
  case (Tick p)
  with assms show ?thesis
    by (simp add: bind_promise_def cleanupExpiredSessions_keeps split: if_splits)
qed

subsection \<open>Invariants of every interleaving\<close>

lemma stamped_step:
  assumes "mono clk" and "stamped clk (mgr r)"
  shows "stamped clk (mgr (step clk e r))"
  unfolding stamped_def
proof (intro allI impI)
  fix k s'
  assume entry: "map_of (sessions (mgr (step clk e r))) k = Some s'"
  have le: "clk (reads (mgr r)) \<le> clk (reads (mgr (step clk e r)))"
    using assms(1) step_reads by (simp add: monoD)
  from step_entry [OF entry]
  show "createdAt s' \<le> lastAccessedAt s' \<and> lastAccessedAt s' \<le> clk (reads (mgr (step clk e r)))"
  proof (elim disjE exE conjE)
    assume "map_of (sessions (mgr r)) k = Some s'"
    with assms(2) le show ?thesis by (fastforce simp: stamped_def)
  next
    fix s
    assume "map_of (sessions (mgr r)) k = Some s" "s' = s\<lparr>lastAccessedAt := clk (reads (mgr r))\<rparr>"
    with assms(2) le show ?thesis by (fastforce simp: stamped_def)
  next
    fix p env
    assume s': "s' = \<lparr>id' = k, environment = env, createdAt = clk (reads (mgr r)),
                    lastAccessedAt = clk (Suc (reads (mgr r)))\<rparr>"
      and rd: "reads (mgr (step clk e r)) = Suc (Suc (reads (mgr r)))"
    have "clk (reads (mgr r)) \<le> clk (Suc (reads (mgr r)))"
      and "clk (Suc (reads (mgr r))) \<le> clk (Suc (Suc (reads (mgr r))))"
      using assms(1) by (simp_all add: monoD)
    with s' rd show ?thesis by simp
  qed
qed

lemma stamped_exec:
  "mono clk \<Longrightarrow> stamped clk (mgr r) \<Longrightarrow> stamped clk (mgr (exec clk es r))"
  by (induction es arbitrary: r) (simp_all add: stamped_step)

lemma stamped_new: "stamped clk (mgr (start (new_SessionManager minutes)))"
  by (simp add: stamped_def start_def new_SessionManager_def startCleanupInterval_def)

lemma reachable_stamped:
  "mono clk \<Longrightarrow> stamped clk (mgr (exec clk es (start (new_SessionManager minutes))))"
  by (rule stamped_exec) (simp_all add: stamped_new)

lemma invoke_distinct:
  "distinct (map fst (sessions m)) \<Longrightarrow> distinct (map fst (sessions (fst (invoke clk c m))))"
proof (cases c)
  case (GetSession sessionId)
  assume "distinct (map fst (sessions m))"
  with GetSession show ?thesis
    by (auto simp: getSession_def date_now_def Let_def distinct_update split: option.splits)
next
  case (GetOrCreateSession sessionId)
  assume "distinct (map fst (sessions m))"
  with GetOrCreateSession show ?thesis
    by (auto simp: getOrCreateSession_def getSession_def date_now_def Let_def distinct_update
        createSession_keeps split: option.splits)
next
  case GetSessionsInfo
  assume "distinct (map fst (sessions m))"
  with GetSessionsInfo show ?thesis
    by (simp add: getSessionsInfo_def date_now_def Let_def)
qed (simp_all add: createSession_keeps removeSession_keeps
      cleanupExpiredSessions_keeps shutdown_keeps stopCleanupInterval_keeps)

lemma resume_distinct:
  assumes "distinct (map fst (sessions m))"
  shows "distinct (map fst (sessions (fst (resume clk out t m))))"
proof (cases t)
  case (AwaitInit sessionId e)
  with assms show ?thesis
    by (cases out) (simp_all add: createSession_resume_def date_now_def Let_def distinct_update)
next
  case (AwaitTerminate sessionId s f)
  with assms show ?thesis
    by (cases out) (simp_all add: removeSession_delete_def distinct_delete)
next
  case (AwaitCleanup sessionId s f)
  with assms show ?thesis
    by (simp add: removeSession_delete_def distinct_delete)
next
  case (AwaitRemoveSession b f)
  with assms show ?thesis
    by (cases f) (simp_all add: cleanupLoop_keeps shutdownLoop_keeps)
qed

lemma step_distinct:
  assumes "distinct (map fst (sessions (mgr r)))"
  shows "distinct (map fst (sessions (mgr (step clk e r))))"
proof (cases e)
  case (Call p c)
  with assms show ?thesis by (simp add: bind_promise_def invoke_distinct)
next
  case (Settle p out)
  with assms show ?thesis
    by (auto simp: bind_promise_def resume_distinct split: option.splits status.splits)
next
  case (Tick p)
  with assms show ?thesis by (simp add: bind_promise_def cleanupExpiredSessions_keeps)
qed

lemma exec_distinct:
  "distinct (map fst (sessions (mgr r))) \<Longrightarrow> distinct (map fst (sessions (mgr (exec clk es r))))"
  by (induction es arbitrary: r) (simp_all add: step_distinct)

lemma reachable_distinct:
  "distinct (map fst (sessions (mgr (exec clk es (start (new_SessionManager minutes))))))"
  by (rule exec_distinct) (simp add: start_def new_SessionManager_def startCleanupInterval_def)

lemma exec_snoc: "exec clk (es @ [e]) r = step clk e (exec clk es r)"
  by (induction es arbitrary: r) simp_all

lemma exec_append: "exec clk (es @ es') r = exec clk es' (exec clk es r)"
  by (induction es arbitrary: r) simp_all

lemma exec_reads: "reads (mgr r) \<le> reads (mgr (exec clk es r))"
proof (induction es arbitrary: r)
  case Nil
  show ?case by simp
next
  case (Cons e es)
  have "reads (mgr r) \<le> reads (mgr (step clk e r))" by (rule step_reads)
  also have "\<dots> \<le> reads (mgr (exec clk es (step clk e r)))" by (rule Cons.IH)
  finally show ?case by simp
qed

lemma lastAccessedAt_exec:
  assumes "mono clk"
      and "r = exec clk es (start (new_SessionManager minutes))"
      and "map_of (sessions (mgr r)) sessionId = Some s"
  shows "map_of (sessions (mgr (exec clk es' r))) sessionId = Some s' \<Longrightarrow>
         lastAccessedAt s \<le> lastAccessedAt s'"
proof (induction es' arbitrary: s' rule: rev_induct)
  case Nil
  with assms(3) show ?case by simp
next
  case (snoc e es')
  let ?r1 = "exec clk es' r"
  have r1: "?r1 = exec clk (es @ es') (start (new_SessionManager minutes))"
    by (simp add: assms(2) exec_append)
  have "stamped clk (mgr r)"
    using assms(1,2) by (simp add: reachable_stamped)
  then have old: "lastAccessedAt s \<le> clk (reads (mgr r))"
    using assms(3) by (simp add: stamped_def)
  have "clk (reads (mgr r)) \<le> clk (reads (mgr ?r1))"
    using assms(1) exec_reads by (simp add: monoD)
  with old have now: "lastAccessedAt s \<le> clk (reads (mgr ?r1))" by simp
  have later: "clk (reads (mgr ?r1)) \<le> clk (Suc (reads (mgr ?r1)))"
    using assms(1) by (simp add: monoD)
  have entry: "map_of (sessions (mgr (step clk e ?r1))) sessionId = Some s'"
    using snoc.prems by (simp add: exec_snoc)
  from step_entry [OF entry] show ?case
  proof (elim disjE exE conjE)
    assume "map_of (sessions (mgr ?r1)) sessionId = Some s'"
    then show ?thesis by (rule snoc.IH)
  next
    fix s1
    assume "s' = s1\<lparr>lastAccessedAt := clk (reads (mgr ?r1))\<rparr>"
    with now show ?thesis by simp
  next
    fix p env
    assume "s' = \<lparr>id' = sessionId, environment = env, createdAt = clk (reads (mgr ?r1)),
                  lastAccessedAt = clk (Suc (reads (mgr ?r1)))\<rparr>"
    with now later show ?thesis by simp
  qed
qed

subsection \<open>When an entry leaves the registry\<close>

lemma getSession_stays:
  "map_of (sessions m) k = Some s \<Longrightarrow>
   map_of (sessions (fst (getSession clk sessionId m))) k \<noteq> None"
  by (simp add: getSession_def date_now_def Let_def AList.update_conv' split: option.splits)

lemma invoke_stays:
  assumes "map_of (sessions m) k = Some s"
  shows "map_of (sessions (fst (invoke clk c m))) k \<noteq> None"
proof (cases c)
  case (GetSession sessionId)
  with assms show ?thesis
    using getSession_stays [of m k s clk sessionId]
    by (cases "getSession clk sessionId m") (auto split: option.splits)
next
  case (GetOrCreateSession sessionId)
  with assms show ?thesis
    using getSession_stays [of m k s clk sessionId]
    by (cases "getSession clk sessionId m")
       (auto simp: getOrCreateSession_def createSession_keeps split: option.splits)
next
  case GetSessionsInfo
  with assms show ?thesis
    by (simp add: getSessionsInfo_def date_now_def Let_def)
qed (use assms in \<open>simp_all add: createSession_keeps removeSession_keeps
      cleanupExpiredSessions_keeps shutdown_keeps stopCleanupInterval_keeps\<close>)

lemma resume_removed:
  assumes "map_of (sessions m) k = Some s"
      and "map_of (sessions (fst (resume clk out t m))) k = None"
  shows "(\<exists>s0 f. t = AwaitCleanup k s0 f) \<or>
         (\<exists>s0 f err. t = AwaitTerminate k s0 f \<and> out = Rejected err)"
proof (cases t)
  case (AwaitInit sessionId e)
  with assms show ?thesis
    by (cases out)
       (auto simp: createSession_resume_def date_now_def Let_def AList.update_conv'
          split: if_splits)
next
  case (AwaitTerminate sessionId s0 f)
  with assms show ?thesis
    by (cases out)
       (auto simp: removeSession_delete_def AList.delete_conv' split: if_splits)
next
  case (AwaitCleanup sessionId s0 f)
  with assms show ?thesis
    by (auto simp: removeSession_delete_def AList.delete_conv' split: if_splits)
next
  case (AwaitRemoveSession b f)
  with assms show ?thesis
    by (cases f) (simp_all add: cleanupLoop_keeps shutdownLoop_keeps)
qed

lemma step_removed:
  assumes "map_of (sessions (mgr r)) k = Some s"
      and "map_of (sessions (mgr (step clk e r))) k = None"
  shows "\<exists>p out. e = Settle p out \<and>
           ((\<exists>s0 f. promises r p = Some (Pending (AwaitCleanup k s0 f))) \<or>
            (\<exists>s0 f err. promises r p = Some (Pending (AwaitTerminate k s0 f)) \<and>
                         out = Rejected err))"
proof (cases e)
  case (Call p c)
  with assms show ?thesis
    using invoke_stays [of "mgr r" k s clk c] by (simp add: bind_promise_def)
next
  case (Settle p out)
  show ?thesis
  proof (cases "promises r p")
    case None
    with assms Settle show ?thesis by simp
  next
    case (Some st)
    show ?thesis
    proof (cases st)
      case (Settled res)
      with assms Settle Some show ?thesis by simp
    next
      case (Pending t)
      with assms Settle Some show ?thesis
        using resume_removed [of "mgr r" k s clk out t] by (auto simp: bind_promise_def)
    qed
  qed
next
  case (Tick p)
  with assms show ?thesis
    by (simp add: bind_promise_def cleanupExpiredSessions_keeps split: if_splits)
qed

subsection \<open>The timer and the count of environments\<close>

lemma removeSession_timer:
  "cleanupInterval (fst (removeSession sessionId k m)) = cleanupInterval m \<and>
   constructed (fst (removeSession sessionId k m)) = constructed m"
  by (simp add: removeSession_def split: option.splits)

lemma cleanupLoop_timer:
  "cleanupInterval (fst (cleanupLoop ks n m)) = cleanupInterval m \<and>
   constructed (fst (cleanupLoop ks n m)) = constructed m"
  by (cases ks) (simp_all add: removeSession_timer)

lemma shutdownLoop_timer:
  "cleanupInterval (fst (shutdownLoop ks m)) = cleanupInterval m \<and>
   constructed (fst (shutdownLoop ks m)) = constructed m"
  by (cases ks) (simp_all add: removeSession_timer)

lemma cleanupExpiredSessions_timer:
  "cleanupInterval (fst (cleanupExpiredSessions clk m)) = cleanupInterval m \<and>
   constructed (fst (cleanupExpiredSessions clk m)) = constructed m"
  by (simp add: cleanupExpiredSessions_def date_now_def findExpired_eq cleanupLoop_timer Let_def)

lemma shutdown_timer:
  "cleanupInterval (fst (shutdown m)) = None \<and> constructed (fst (shutdown m)) = constructed m"
  by (simp add: shutdown_def shutdownLoop_timer stopCleanupInterval_def Let_def)

lemma invoke_timer:
  "cleanupInterval m = None \<Longrightarrow> cleanupInterval (fst (invoke clk c m)) = None"
proof (cases c)
  case (GetSession sessionId)
  assume "cleanupInterval m = None"
  with GetSession show ?thesis
    by (auto simp: getSession_def date_now_def Let_def split: option.splits)
next
  case (GetOrCreateSession sessionId)
  assume "cleanupInterval m = None"
  with GetOrCreateSession show ?thesis
    by (auto simp: getOrCreateSession_def getSession_def createSession_def date_now_def Let_def
        split: option.splits)
next
  case (CreateSession sessionId)
  assume "cleanupInterval m = None"
  with CreateSession show ?thesis by (simp add: createSession_def Let_def)
next
  case GetSessionsInfo
  assume "cleanupInterval m = None"
  with GetSessionsInfo show ?thesis by (simp add: getSessionsInfo_def date_now_def Let_def)
qed (simp_all add: removeSession_timer cleanupExpiredSessions_timer shutdown_timer
      stopCleanupInterval_def)

lemma resume_timer:
  "cleanupInterval (fst (resume clk out t m)) = cleanupInterval m"
proof (cases t)
  case (AwaitInit sessionId e)
  then show ?thesis
    by (cases out) (simp_all add: createSession_resume_def date_now_def Let_def)
next
  case (AwaitTerminate sessionId s f)
  then show ?thesis by (cases out) (simp_all add: removeSession_delete_def)
next
  case (AwaitCleanup sessionId s f)
  then show ?thesis by (simp add: removeSession_delete_def)
next
  case (AwaitRemoveSession b f)
  then show ?thesis by (cases f) (simp_all add: cleanupLoop_timer shutdownLoop_timer)
qed

lemma step_timer:
  assumes "cleanupInterval (mgr r) = None"
  shows "cleanupInterval (mgr (step clk e r)) = None"
proof (cases e)
  case (Call p c)
  with assms show ?thesis by (simp add: bind_promise_def invoke_timer)
next
  case (Settle p out)
  with assms show ?thesis
    by (auto simp: bind_promise_def resume_timer split: option.splits status.splits)
next
  case (Tick p)
  with assms show ?thesis by simp
qed

lemma exec_timer:
  "cleanupInterval (mgr r) = None \<Longrightarrow> cleanupInterval (mgr (exec clk es r)) = None"
  by (induction es arbitrary: r) (simp_all add: step_timer)

lemma timer_cleared_for_good:
  "cleanupInterval (mgr (exec clk es (step clk (Call q Shutdown) r))) = None \<and>
   step clk (Tick p) (exec clk es (step clk (Call q Shutdown) r))
     = exec clk es (step clk (Call q Shutdown) r)"
proof -
  have "cleanupInterval (mgr (step clk (Call q Shutdown) r)) = None"
    by (simp add: bind_promise_def shutdown_timer)
  then have "cleanupInterval (mgr (exec clk es (step clk (Call q Shutdown) r))) = None"
    by (rule exec_timer)
  then show ?thesis by simp
qed

lemma invoke_ManualCleanup:
  "invoke clk ManualCleanup m =
     cleanupLoop (map (fst \<circ> snd) (filter (\<lambda>c. sessionTimeout m \<le> idle_at clk c) (checked m)))
       (length (filter (\<lambda>c. sessionTimeout m \<le> idle_at clk c) (checked m)))
       (m\<lparr>reads := Suc (reads m) + length (sessions m)\<rparr>)"
proof -
  have P: "(\<lambda>(i, k, s). sessionTimeout m \<le> clk i - lastAccessedAt s)
            = (\<lambda>c. sessionTimeout m \<le> idle_at clk c)"
    by (auto simp: idle_at_def)
  show ?thesis
    by (cases "filter (\<lambda>c. sessionTimeout m \<le> idle_at clk c) (checked m)")
       (simp_all add: cleanupExpiredSessions_def date_now_def findExpired_eq P checked_def Let_def)
qed

lemma Tick_is_ManualCleanup:
  "cleanupInterval (mgr r) \<noteq> None \<Longrightarrow> step clk (Tick p) r = step clk (Call p ManualCleanup) r"
  by auto














subsection \<open>The concrete runs, evaluated\<close>

lemma mono_clock1: "mono clock1"
  by (simp add: mono_def clock1_def)

lemma one_session_eq:
  "one_session =
     \<lparr>sessions = [(''a'', \<lparr>id' = ''a'', environment = 0, createdAt = 1000, lastAccessedAt = 1001\<rparr>)],
      sessionTimeout = 600000, cleanupInterval = Some 60000, cleanupIntervalMs = 60000,
      reads = 2, constructed = 1, envCalls = [Init 0]\<rparr>"
  by (simp add: one_session_def clock1_def model_defs)

lemma mgr_created_a: "mgr created_a = one_session"
  by (simp add: created_a_def one_session_eq clock1_def model_defs)

lemma two_sessions_eq:
  "two_sessions =
     \<lparr>sessions =
        [(''a'', \<lparr>id' = ''a'', environment = 0, createdAt = 0, lastAccessedAt = 0\<rparr>),
         (''b'', \<lparr>id' = ''b'', environment = 1, createdAt = 700002, lastAccessedAt = 700003\<rparr>)],
      sessionTimeout = 600000, cleanupInterval = Some 60000, cleanupIntervalMs = 60000,
      reads = 4, constructed = 2, envCalls = [Init 0, Init 1]\<rparr>"
  by (simp add: two_sessions_def clock2_def model_defs)

lemma sweep_two_sessions:
  "run clock2 envs (invoke clock2 ManualCleanup two_sessions) =
     (\<lparr>sessions =
        [(''b'', \<lparr>id' = ''b'', environment = 1, createdAt = 700002, lastAccessedAt = 700003\<rparr>)],
      sessionTimeout = 600000, cleanupInterval = Some 60000, cleanupIntervalMs = 60000,
      reads = 7, constructed = 2, envCalls = [Init 0, Init 1] @ teardown envs \<lparr>id' = ''a'', environment = 0, createdAt = 0, lastAccessedAt = 0\<rparr>\<rparr>,
      RNumber 1)"
  by (cases "envs (Terminate 0)") (simp_all add: two_sessions_eq clock2_def model_defs teardown_def)

section \<open>Concurrent creation\<close>

text \<open>
  C1. Two callers ask for the session \<open>''a''\<close> while it is absent from the registry:
  the second call is made before the \<^verbatim>\<open>init\<close> of the first has settled. A
  single-flight \<^verbatim>\<open>getOrCreateSession\<close> would construct one environment and hand
  both callers the same session. The source does not: \<^verbatim>\<open>createSession\<close> checks
  \<^verbatim>\<open>this.sessions.has(sessionId)\<close> before \<^verbatim>\<open>await environment.init()\<close> and stores
  the session after it, so both callers pass the check. Two environments are
  constructed and initialized, the callers receive different sessions (environments
  0 and 1, \<open>createdAt\<close> 1000 and 1002), and the registry keeps only the second: the
  environment 0 is never terminated or cleaned up by the manager.
\<close>

theorem two_callers_two_environments:
  "map_of (sessions (mgr (start (new_SessionManager 10)))) ''a'' = None \<and>
   map_of (sessions (mgr (step clock1 (Call 0 (GetOrCreateSession ''a'')) (start (new_SessionManager 10))))) ''a'' = None \<and>
   envCalls (mgr two_callers) = [Init 0, Init 1] \<and>
   promises two_callers 0 = Some (Settled (RSession
     \<lparr>id' = ''a'', environment = 0, createdAt = 1000, lastAccessedAt = 1001\<rparr>)) \<and>
   promises two_callers 1 = Some (Settled (RSession
     \<lparr>id' = ''a'', environment = 1, createdAt = 1002, lastAccessedAt = 1003\<rparr>)) \<and>
   sessions (mgr two_callers) =
     [(''a'', \<lparr>id' = ''a'', environment = 1, createdAt = 1002, lastAccessedAt = 1003\<rparr>)]"
  by (simp add: two_callers_def clock1_def model_defs)

section \<open>Teardown\<close>

text \<open>A \<^verbatim>\<open>terminate\<close> that fails sends \<^verbatim>\<open>removeSession\<close> to its
  \<^verbatim>\<open>catch\<close> block: \<^verbatim>\<open>cleanup\<close> is never called on environment 0.\<close>

theorem cleanup_skipped_counterexample:
  "map_of (sessions one_session) ''a''
     = Some \<lparr>id' = ''a'', environment = 0, createdAt = 1000, lastAccessedAt = 1001\<rparr> \<and>
   terminate_fails (Terminate 0) = Rejected ''terminate failed'' \<and>
   envCalls (fst (run clock1 terminate_fails (invoke clock1 (RemoveSession ''a'') one_session)))
     = [Init 0, Terminate 0] \<and>
   Cleanup 0 \<notin> set (envCalls (fst (run clock1 terminate_fails
                                      (invoke clock1 (RemoveSession ''a'') one_session))))"
  by (simp add: one_session_eq terminate_fails_def model_defs)

text \<open>
  C2, as the code has it. For every session being removed, whoever called
  \<^verbatim>\<open>removeSession\<close> (an outside caller, a sweep or \<^verbatim>\<open>shutdown\<close>: any frame
  \<open>k\<close>), teardown first calls \<^verbatim>\<open>terminate\<close>; it calls \<^verbatim>\<open>cleanup\<close> when, and
  only when, \<^verbatim>\<open>terminate\<close> resolved. If \<^verbatim>\<open>terminate\<close> is rejected no further
  call is made to the environment, and none is made after \<^verbatim>\<open>cleanup\<close> settles
  either way. Run to its end, the removal makes exactly the calls
  \<^verbatim>\<open>terminate, cleanup\<close> or the call \<^verbatim>\<open>terminate\<close> alone.
\<close>

theorem teardown_steps:
  assumes "map_of (sessions m) sessionId = Some s"
  shows "removeSession sessionId k m =
           (m\<lparr>envCalls := envCalls m @ [Terminate (environment s)]\<rparr>,
            Pending (AwaitTerminate sessionId s k)) \<and>
         resume clk Resolved (AwaitTerminate sessionId s k) m1 =
           (m1\<lparr>envCalls := envCalls m1 @ [Cleanup (environment s)]\<rparr>,
            Pending (AwaitCleanup sessionId s k)) \<and>
         envCalls (fst (resume clk (Rejected err) (AwaitTerminate sessionId s k) m1)) = envCalls m1 \<and>
         envCalls (fst (resume clk out (AwaitCleanup sessionId s k) m2)) = envCalls m2 \<and>
         envCalls (fst (run clk envs (removeSession sessionId Return m))) =
           envCalls m @
             (case envs (Terminate (environment s)) of
                Resolved \<Rightarrow> [Terminate (environment s), Cleanup (environment s)]
              | Rejected e \<Rightarrow> [Terminate (environment s)])"
proof -
  have "envCalls (fst (run clk envs (removeSession sessionId Return m))) =
          envCalls m @ teardown envs s"
    using assms by (simp add: run_removeSession_present return_to_def)
  then show ?thesis
    using assms
    by (simp add: removeSession_def removeSession_delete_def teardown_def)
qed

theorem teardown_steps_witness:
  "map_of (sessions one_session) ''a''
     = Some \<lparr>id' = ''a'', environment = 0, createdAt = 1000, lastAccessedAt = 1001\<rparr> \<and>
   envCalls (fst (run clock1 terminate_fails (removeSession ''a'' Return one_session)))
     = [Init 0, Terminate 0] \<and>
   envCalls (fst (run clock1 (\<lambda>c. Resolved) (removeSession ''a'' Return one_session)))
     = [Init 0, Terminate 0, Cleanup 0]"
proof -
  have present: "map_of (sessions one_session) ''a''
     = Some \<lparr>id' = ''a'', environment = 0, createdAt = 1000, lastAccessedAt = 1001\<rparr>"
    by (simp add: one_session_eq)
  show ?thesis
    using present
      teardown_steps [OF present, of Return clock1 one_session "''x''" Resolved one_session terminate_fails]
      teardown_steps [OF present, of Return clock1 one_session "''x''" Resolved one_session "\<lambda>c. Resolved"]
    by (simp add: one_session_eq terminate_fails_def clock1_def model_defs)
qed

text \<open>While the removal of \<open>''a''\<close> waits for \<^verbatim>\<open>terminate\<close> (promise 1 is
  pending), \<^verbatim>\<open>getSession\<close> still finds the session, refreshes it and returns
  it.\<close>

theorem visible_during_teardown_counterexample:
  "promises lookup_during_teardown 1 =
     Some (Pending (AwaitTerminate ''a''
       \<lparr>id' = ''a'', environment = 0, createdAt = 1000, lastAccessedAt = 1001\<rparr> Return)) \<and>
   promises lookup_during_teardown 2 =
     Some (Settled (RSession
       \<lparr>id' = ''a'', environment = 0, createdAt = 1000, lastAccessedAt = 1002\<rparr>)) \<and>
   map_of (sessions (mgr lookup_during_teardown)) ''a'' \<noteq> None \<and>
   envCalls (mgr lookup_during_teardown) = [Init 0, Terminate 0]"
  by (simp add: lookup_during_teardown_def clock1_def model_defs)

text \<open>
  C3, as the code has it. A removal does not take the session out of the registry
  before its teardown. For every removal of a present session id, the registry is
  unchanged when \<^verbatim>\<open>removeSession\<close> suspends at \<^verbatim>\<open>terminate\<close> and when it
  suspends at \<^verbatim>\<open>cleanup\<close>; the removal deletes the entry only in its last step,
  after \<^verbatim>\<open>terminate\<close> was rejected or \<^verbatim>\<open>cleanup\<close> settled; and a lookup made
  when the removal has just suspended returns the session with a refreshed
  \<open>lastAccessedAt\<close>. In every interleaving an entry leaves the registry only in
  such a last step of a removal of its id, this one or another one under way at the
  same time: until then lookups find the session.
\<close>

theorem registry_during_teardown:
  assumes "map_of (sessions m) sessionId = Some s"
  shows "snd (removeSession sessionId k m) = Pending (AwaitTerminate sessionId s k) \<and>
         sessions (fst (removeSession sessionId k m)) = sessions m \<and>
         snd (getSession clk sessionId (fst (removeSession sessionId k m)))
           = Some (s\<lparr>lastAccessedAt := clk (reads m)\<rparr>) \<and>
         snd (resume clk Resolved (AwaitTerminate sessionId s k) m1)
           = Pending (AwaitCleanup sessionId s k) \<and>
         sessions (fst (resume clk Resolved (AwaitTerminate sessionId s k) m1)) = sessions m1 \<and>
         sessions (fst (resume clk (Rejected err) (AwaitTerminate sessionId s k) m1))
           = AList.delete sessionId (sessions m1) \<and>
         sessions (fst (resume clk out (AwaitCleanup sessionId s k) m2))
           = AList.delete sessionId (sessions m2) \<and>
         (map_of (sessions (mgr r)) sessionId \<noteq> None \<and>
          map_of (sessions (mgr (step clk ev r))) sessionId = None \<longrightarrow>
            (\<exists>p out'. ev = Settle p out' \<and>
               ((\<exists>s0 f. promises r p = Some (Pending (AwaitCleanup sessionId s0 f))) \<or>
                (\<exists>s0 f err'. promises r p = Some (Pending (AwaitTerminate sessionId s0 f)) \<and>
                              out' = Rejected err'))))"
proof -
  have steps: "snd (removeSession sessionId k m) = Pending (AwaitTerminate sessionId s k) \<and>
         sessions (fst (removeSession sessionId k m)) = sessions m \<and>
         snd (getSession clk sessionId (fst (removeSession sessionId k m)))
           = Some (s\<lparr>lastAccessedAt := clk (reads m)\<rparr>) \<and>
         snd (resume clk Resolved (AwaitTerminate sessionId s k) m1)
           = Pending (AwaitCleanup sessionId s k) \<and>
         sessions (fst (resume clk Resolved (AwaitTerminate sessionId s k) m1)) = sessions m1 \<and>
         sessions (fst (resume clk (Rejected err) (AwaitTerminate sessionId s k) m1))
           = AList.delete sessionId (sessions m1) \<and>
         sessions (fst (resume clk out (AwaitCleanup sessionId s k) m2))
           = AList.delete sessionId (sessions m2)"
    using assms
    by (simp add: removeSession_def removeSession_delete_def getSession_def date_now_def Let_def)
  have leaves: "\<exists>p out'. ev = Settle p out' \<and>
               ((\<exists>s0 f. promises r p = Some (Pending (AwaitCleanup sessionId s0 f))) \<or>
                (\<exists>s0 f err'. promises r p = Some (Pending (AwaitTerminate sessionId s0 f)) \<and>
                              out' = Rejected err'))"
    if "map_of (sessions (mgr r)) sessionId \<noteq> None"
      and "map_of (sessions (mgr (step clk ev r))) sessionId = None"
  proof -
    from that(1) obtain s1 where "map_of (sessions (mgr r)) sessionId = Some s1" by auto
    then show ?thesis using that(2) by (rule step_removed)
  qed
  show ?thesis
    using steps leaves by blast
qed

theorem registry_during_teardown_witness:
  "map_of (sessions one_session) ''a''
     = Some \<lparr>id' = ''a'', environment = 0, createdAt = 1000, lastAccessedAt = 1001\<rparr> \<and>
   sessions (fst (removeSession ''a'' Return one_session)) = sessions one_session \<and>
   snd (getSession clock1 ''a'' (fst (removeSession ''a'' Return one_session)))
     = Some \<lparr>id' = ''a'', environment = 0, createdAt = 1000, lastAccessedAt = 1002\<rparr> \<and>
   map_of (sessions (mgr removal_at_cleanup)) ''a'' \<noteq> None \<and>
   map_of (sessions (mgr (step clock1 (Settle 1 Resolved) removal_at_cleanup))) ''a'' = None \<and>
   promises removal_at_cleanup 1 = Some (Pending (AwaitCleanup ''a''
     \<lparr>id' = ''a'', environment = 0, createdAt = 1000, lastAccessedAt = 1001\<rparr> Return))"
proof -
  have present: "map_of (sessions one_session) ''a''
     = Some \<lparr>id' = ''a'', environment = 0, createdAt = 1000, lastAccessedAt = 1001\<rparr>"
    by (simp add: one_session_eq)
  have facts: "sessions (fst (removeSession ''a'' Return one_session)) = sessions one_session \<and>
   snd (getSession clock1 ''a'' (fst (removeSession ''a'' Return one_session)))
     = Some \<lparr>id' = ''a'', environment = 0, createdAt = 1000, lastAccessedAt = 1002\<rparr> \<and>
   map_of (sessions (mgr removal_at_cleanup)) ''a'' \<noteq> None \<and>
   map_of (sessions (mgr (step clock1 (Settle 1 Resolved) removal_at_cleanup))) ''a'' = None \<and>
   promises removal_at_cleanup 1 = Some (Pending (AwaitCleanup ''a''
     \<lparr>id' = ''a'', environment = 0, createdAt = 1000, lastAccessedAt = 1001\<rparr> Return))"
    by (simp add: removal_at_cleanup_def one_session_eq clock1_def model_defs)
  show ?thesis
    using present facts
      registry_during_teardown [OF present, where k = Return and clk = clock1
        and ?m1.0 = one_session and ?m2.0 = one_session and err = "''x''" and out = Resolved
        and r = removal_at_cleanup and ev = "Settle 1 Resolved"]
    by blast
qed

section \<open>Failed creation\<close>




section \<open>Sweeps\<close>

text \<open>A sweep selects \<open>''a''\<close> and \<open>''b''\<close>, both idle for 700 seconds, and
  suspends at \<^verbatim>\<open>terminate\<close> of \<open>''a''\<close>. Meanwhile one caller removes
  \<open>''b''\<close> and another creates it again (environment 2, accessed at 700008). The
  sweep then removes the new \<open>''b''\<close>, idle for one millisecond, and returns 2.\<close>

theorem sweep_race_counterexample:
  "promises sweep_race 2 = Some (Settled (RNumber 2)) \<and>
   promises sweep_race 4 = Some (Settled (RSession
     \<lparr>id' = ''b'', environment = 2, createdAt = 700007, lastAccessedAt = 700008\<rparr>)) \<and>
   sessions (mgr sweep_race) = [] \<and>
   envCalls (mgr sweep_race) =
     [Init 0, Init 1, Terminate 0, Terminate 1, Cleanup 1, Init 2, Cleanup 0, Terminate 2, Cleanup 2] \<and>
   clock4 (reads (mgr sweep_race)) - 700008 < sessionTimeout (mgr sweep_race)"
  by (simp add: sweep_race_def clock4_def model_defs)

lemma sweep_pass:
  assumes "distinct (map fst (sessions m))"
      and "run clk envs (invoke clk ManualCleanup m) = (m', res)"
  shows "res = RNumber (length (filter (\<lambda>c. sessionTimeout m \<le> idle_at clk c) (checked m))) \<and>
         sessions m' = map snd (filter (\<lambda>c. idle_at clk c < sessionTimeout m) (checked m)) \<and>
         res = RNumber (length (sessions m) - length (sessions m')) \<and>
         ((\<forall>c \<in> set (checked m). clk (fst c) = now) \<longrightarrow>
            sessions m' = filter (\<lambda>(k, s). now - lastAccessedAt s < sessionTimeout m) (sessions m))"
proof -
  let ?P = "\<lambda>c. sessionTimeout m \<le> idle_at clk c"
  let ?zs = "checked m"
  have snd_zs: "map snd ?zs = sessions m"
    by (simp add: checked_def)
  have dist: "distinct (map (fst \<circ> snd) ?zs)"
    using assms(1) snd_zs by (metis map_map)
  have res: "res = RNumber (length (filter ?P ?zs))"
    and m': "sessions m' = filter (\<lambda>p. fst p \<notin> set (map (fst \<circ> snd) (filter ?P ?zs))) (sessions m)"
    using assms(2) by (auto simp: run_cleanupExpiredSessions sessions_remove_all Let_def)
  have kept: "sessions m' = map snd (filter (\<lambda>c. idle_at clk c < sessionTimeout m) ?zs)"
    using filter_keys_of_selected [OF dist, of ?P] m' snd_zs
    by (simp add: not_le)
  have "length (filter ?P ?zs) + length (filter (\<lambda>c. \<not> ?P c) ?zs) = length ?zs"
    by (rule sum_length_filter_compl)
  moreover have "length ?zs = length (sessions m)"
    by (simp add: checked_def)
  ultimately have count: "length (filter ?P ?zs) = length (sessions m) - length (sessions m')"
    using kept by (simp add: not_le)
  have frozen: "sessions m' = filter (\<lambda>(k, s). now - lastAccessedAt s < sessionTimeout m) (sessions m)"
    if "\<forall>c \<in> set ?zs. clk (fst c) = now"
  proof -
    have "filter (\<lambda>c. idle_at clk c < sessionTimeout m) ?zs
            = filter ((\<lambda>(k, s). now - lastAccessedAt s < sessionTimeout m) \<circ> snd) ?zs"
      using that by (intro filter_cong refl) (auto simp: idle_at_def split: prod.splits)
    then have "sessions m' = filter (\<lambda>(k, s). now - lastAccessedAt s < sessionTimeout m) (map snd ?zs)"
      using kept by (simp add: filter_map)
    then show ?thesis using snd_zs by simp
  qed
  show ?thesis
    using res kept count frozen by simp
qed

text \<open>
  C5, as the code has it. A sweep pass is \<^verbatim>\<open>cleanupExpiredSessions\<close>, called by
  \<^verbatim>\<open>manualCleanup\<close> or by the timer while it is set: a tick is the same call. In
  one uninterrupted scan the pass selects exactly the sessions whose idle duration
  \<^verbatim>\<open>now - lastAccessedAt\<close>, read when the pass checks them, is at least the
  configured timeout, and starts removing the selected ids one by one. A pass that
  runs to its end with no other call
  interleaved, on a registry with one entry per id, removes exactly the selected
  sessions and keeps every other session, in order; the number it returns is the
  number of sessions removed, by which the registry shrank. When the clock does not
  advance during the pass, \<open>now\<close> is one instant for all sessions. This holds
  however the environments answer.
\<close>

theorem sweep_removes_expired:
  assumes "distinct (map fst (sessions m))"
      and "run clk envs (invoke clk ManualCleanup m) = (m', res)"
  shows "res = RNumber (length (filter (\<lambda>c. sessionTimeout m \<le> idle_at clk c) (checked m))) \<and>
         sessions m' = map snd (filter (\<lambda>c. idle_at clk c < sessionTimeout m) (checked m)) \<and>
         res = RNumber (length (sessions m) - length (sessions m')) \<and>
         ((\<forall>c \<in> set (checked m). clk (fst c) = now) \<longrightarrow>
            sessions m' = filter (\<lambda>(k, s). now - lastAccessedAt s < sessionTimeout m) (sessions m)) \<and>
         invoke clk ManualCleanup m =
           cleanupLoop
             (map (fst \<circ> snd) (filter (\<lambda>c. sessionTimeout m \<le> idle_at clk c) (checked m)))
             (length (filter (\<lambda>c. sessionTimeout m \<le> idle_at clk c) (checked m)))
             (m\<lparr>reads := Suc (reads m) + length (sessions m)\<rparr>) \<and>
         (cleanupInterval (mgr r) \<noteq> None \<longrightarrow>
            step clk (Tick p) r = step clk (Call p ManualCleanup) r)"
  using sweep_pass [OF assms, of now] invoke_ManualCleanup [of clk m]
    Tick_is_ManualCleanup [of r clk p]
  by blast

theorem sweep_removes_expired_witness:
  "distinct (map fst (sessions two_sessions)) \<and>
   snd (run clock2 (\<lambda>c. Resolved) (invoke clock2 ManualCleanup two_sessions)) = RNumber 1 \<and>
   sessions (fst (run clock2 (\<lambda>c. Resolved) (invoke clock2 ManualCleanup two_sessions)))
     = [(''b'', \<lparr>id' = ''b'', environment = 1, createdAt = 700002, lastAccessedAt = 700003\<rparr>)] \<and>
   map (idle_at clock2) (checked two_sessions) = [700005, 3] \<and>
   sessionTimeout two_sessions = 600000 \<and>
   map (\<lambda>c. clock3 (fst c)) (checked two_sessions) = [2000000, 2000000] \<and>
   run clock3 (\<lambda>c. Resolved) (invoke clock3 ManualCleanup two_sessions) =
     (\<lparr>sessions = [], sessionTimeout = 600000, cleanupInterval = Some 60000,
       cleanupIntervalMs = 60000, reads = 7, constructed = 2,
       envCalls = [Init 0, Init 1, Terminate 0, Cleanup 0, Terminate 1, Cleanup 1]\<rparr>, RNumber 2) \<and>
   cleanupInterval (mgr created_a) = Some 60000 \<and>
   promises (step clock1 (Tick 7) created_a) 7 = Some (Settled (RNumber 0))"
proof -
  have d: "distinct (map fst (sessions two_sessions))"
    by (simp add: two_sessions_eq)
  have r: "run clock2 (\<lambda>c. Resolved) (invoke clock2 ManualCleanup two_sessions)
             = (fst (run clock2 (\<lambda>c. Resolved) (invoke clock2 ManualCleanup two_sessions)),
                snd (run clock2 (\<lambda>c. Resolved) (invoke clock2 ManualCleanup two_sessions)))"
    by simp
  have pass: "snd (run clock2 (\<lambda>c. Resolved) (invoke clock2 ManualCleanup two_sessions)) = RNumber 1 \<and>
      sessions (fst (run clock2 (\<lambda>c. Resolved) (invoke clock2 ManualCleanup two_sessions)))
        = [(''b'', \<lparr>id' = ''b'', environment = 1, createdAt = 700002, lastAccessedAt = 700003\<rparr>)]"
    using sweep_two_sessions [of "\<lambda>c. Resolved"] by simp
  have vals: "map (idle_at clock2) (checked two_sessions) = [700005, 3] \<and>
      sessionTimeout two_sessions = 600000 \<and>
      map (\<lambda>c. clock3 (fst c)) (checked two_sessions) = [2000000, 2000000]"
    by (simp add: two_sessions_eq checked_def idle_at_def clock2_def clock3_def
        enumerate_eq_zip upt_rec)
  have stopped: "run clock3 (\<lambda>c. Resolved) (invoke clock3 ManualCleanup two_sessions) =
     (\<lparr>sessions = [], sessionTimeout = 600000, cleanupInterval = Some 60000,
       cleanupIntervalMs = 60000, reads = 7, constructed = 2,
       envCalls = [Init 0, Init 1, Terminate 0, Cleanup 0, Terminate 1, Cleanup 1]\<rparr>, RNumber 2)"
    by (simp add: two_sessions_eq clock3_def model_defs)
  have tick: "cleanupInterval (mgr created_a) = Some 60000 \<and>
      promises (step clock1 (Tick 7) created_a) 7 = Some (Settled (RNumber 0))"
    by (simp add: created_a_def clock1_def model_defs)
  show ?thesis
    using sweep_removes_expired [OF d r, where now = 0 and r = created_a and p = 7]
      sweep_removes_expired [OF d stopped, where now = 2000000 and r = created_a and p = 7]
      d pass vals stopped tick
    by blast
qed

section \<open>Access times\<close>

text \<open>
  C6. In every state the manager can reach from its construction, by any
  interleaving of calls, settlements and timer ticks, and with a clock that never
  goes back: a lookup of a present id (\<^verbatim>\<open>getSession\<close>, or
  \<^verbatim>\<open>getOrCreateSession\<close> finding the session) sets \<open>lastAccessedAt\<close> to the
  current time and returns the session so refreshed; the current time is not before
  the previous \<open>lastAccessedAt\<close>; and whatever events follow, the
  \<open>lastAccessedAt\<close> found under the id afterwards is never smaller than it is
  now.
\<close>

theorem lastAccessedAt_monotone:
  assumes "mono clk"
      and "r = exec clk es (start (new_SessionManager minutes))"
      and "map_of (sessions (mgr r)) sessionId = Some s"
  shows "snd (getSession clk sessionId (mgr r)) = Some (s\<lparr>lastAccessedAt := clk (reads (mgr r))\<rparr>) \<and>
         map_of (sessions (fst (getSession clk sessionId (mgr r)))) sessionId
           = Some (s\<lparr>lastAccessedAt := clk (reads (mgr r))\<rparr>) \<and>
         invoke clk (GetOrCreateSession sessionId) (mgr r)
           = (fst (getSession clk sessionId (mgr r)),
              Settled (RSession (s\<lparr>lastAccessedAt := clk (reads (mgr r))\<rparr>))) \<and>
         lastAccessedAt s \<le> clk (reads (mgr r)) \<and>
         (\<forall>es' s'. map_of (sessions (mgr (exec clk es' r))) sessionId = Some s' \<longrightarrow>
            lastAccessedAt s \<le> lastAccessedAt s')"
proof -
  have st: "stamped clk (mgr r)"
    using assms(1,2) by (simp add: reachable_stamped)
  then have now: "lastAccessedAt s \<le> clk (reads (mgr r))"
    using assms(3) by (simp add: stamped_def)
  show ?thesis
    using getSession_present [OF assms(3), of clk] now lastAccessedAt_exec [OF assms] by blast
qed

theorem lastAccessedAt_monotone_witness:
  "mono clock1 \<and>
   map_of (sessions (mgr created_a)) ''a''
     = Some \<lparr>id' = ''a'', environment = 0, createdAt = 1000, lastAccessedAt = 1001\<rparr> \<and>
   snd (getSession clock1 ''a'' (mgr created_a))
     = Some \<lparr>id' = ''a'', environment = 0, createdAt = 1000, lastAccessedAt = 1002\<rparr> \<and>
   map_of (sessions (mgr (exec clock1 three_lookups created_a))) ''a''
     = Some \<lparr>id' = ''a'', environment = 0, createdAt = 1000, lastAccessedAt = 1006\<rparr> \<and>
   (1001 :: int) \<le> 1006"
proof -
  have present: "map_of (sessions (mgr created_a)) ''a''
     = Some \<lparr>id' = ''a'', environment = 0, createdAt = 1000, lastAccessedAt = 1001\<rparr>"
    by (simp add: mgr_created_a one_session_eq)
  have after: "map_of (sessions (mgr (exec clock1 three_lookups created_a))) ''a''
     = Some \<lparr>id' = ''a'', environment = 0, createdAt = 1000, lastAccessedAt = 1006\<rparr>"
    by (simp add: three_lookups_def created_a_def clock1_def model_defs)
  show ?thesis
    using mono_clock1 present after
      lastAccessedAt_monotone [OF mono_clock1 created_a_def present]
    by (simp add: mgr_created_a one_session_eq clock1_def model_defs)
qed

section \<open>Shutdown\<close>

text \<open>\<^verbatim>\<open>shutdown\<close> of a manager whose one session fails to terminate empties the
  registry without ever calling \<^verbatim>\<open>cleanup\<close> on its environment. And when
  another caller creates \<open>''b''\<close> while \<^verbatim>\<open>shutdown\<close> awaits \<^verbatim>\<open>terminate\<close>
  of \<open>''a''\<close>, \<^verbatim>\<open>shutdown\<close> ends with one active session.\<close>

theorem shutdown_counterexample:
  "sessions one_session
     = [(''a'', \<lparr>id' = ''a'', environment = 0, createdAt = 1000, lastAccessedAt = 1001\<rparr>)] \<and>
   run clock1 terminate_fails (invoke clock1 Shutdown one_session) =
     (\<lparr>sessions = [], sessionTimeout = 600000, cleanupInterval = None, cleanupIntervalMs = 60000,
       reads = 2, constructed = 1, envCalls = [Init 0, Terminate 0]\<rparr>, RVoid) \<and>
   Cleanup 0 \<notin> set (envCalls (fst (run clock1 terminate_fails (invoke clock1 Shutdown one_session)))) \<and>
   promises shutdown_race 1 = Some (Settled RVoid) \<and>
   getActiveSessionCount (mgr shutdown_race) = 1 \<and>
   sessions (mgr shutdown_race)
     = [(''b'', \<lparr>id' = ''b'', environment = 1, createdAt = 1002, lastAccessedAt = 1003\<rparr>)]"
  by (simp add: one_session_eq terminate_fails_def shutdown_race_def clock1_def model_defs)

lemma shutdown_run:
  assumes "distinct (map fst (sessions m))"
      and "run clk envs (invoke clk Shutdown m) = (m', res)"
  shows "res = RVoid \<and>
         sessions m' = [] \<and>
         getActiveSessionCount m' = 0 \<and>
         cleanupInterval m' = None \<and>
         envCalls m' = envCalls m @ concat (map (\<lambda>p. teardown envs (snd p)) (sessions m)) \<and>
         step clk (Tick p) \<lparr>mgr = m', promises = ps\<rparr> = \<lparr>mgr = m', promises = ps\<rparr>"
proof -
  let ?m1 = "stopCleanupInterval m"
  have s1: "sessions ?m1 = sessions m" and e1: "envCalls ?m1 = envCalls m"
    and c1: "cleanupInterval ?m1 = None"
    by (simp_all add: stopCleanupInterval_def)
  have run: "m' = remove_all envs (map fst (sessions m)) ?m1" and res: "res = RVoid"
    using assms(2) by (simp_all add: shutdown_def run_shutdownLoop s1 Let_def)
  have empty: "sessions m' = []"
    by (simp add: run sessions_remove_all s1)
  have off: "cleanupInterval m' = None"
    by (simp add: run frame_remove_all c1)
  have calls: "envCalls m' = envCalls m @ concat (map (\<lambda>p. teardown envs (snd p)) (sessions m))"
    using assms(1)
    by (simp add: run envCalls_remove_all s1 e1 teardown_of_keys del: map_map)
  show ?thesis
    using res empty off calls by (simp add: getActiveSessionCount_def)
qed

text \<open>
  C7, as the code has it. \<^verbatim>\<open>shutdown()\<close> clears the interval timer in its first
  step; whatever calls and settlements follow, the timer stays cleared and a tick
  does nothing. After a \<^verbatim>\<open>shutdown()\<close> that runs to its end with no other call
  interleaved, on a registry with one entry per id, the active session count is 0:
  every session present at shutdown has been removed, with \<^verbatim>\<open>terminate\<close> called
  on each, and \<^verbatim>\<open>cleanup\<close> called on each whose \<^verbatim>\<open>terminate\<close> resolved.
\<close>

theorem shutdown_drains:
  assumes "distinct (map fst (sessions m))"
      and "run clk envs (invoke clk Shutdown m) = (m', res)"
  shows "res = RVoid \<and>
         sessions m' = [] \<and>
         getActiveSessionCount m' = 0 \<and>
         cleanupInterval m' = None \<and>
         envCalls m' = envCalls m @ concat (map (\<lambda>p. teardown envs (snd p)) (sessions m)) \<and>
         step clk (Tick p) \<lparr>mgr = m', promises = ps\<rparr> = \<lparr>mgr = m', promises = ps\<rparr> \<and>
         cleanupInterval (mgr (exec clk es (step clk (Call q Shutdown) r))) = None \<and>
         step clk (Tick p) (exec clk es (step clk (Call q Shutdown) r))
           = exec clk es (step clk (Call q Shutdown) r)"
  using shutdown_run [OF assms, of p ps] timer_cleared_for_good [of clk es q r p]
  by blast

theorem shutdown_drains_witness:
  "distinct (map fst (sessions two_sessions)) \<and>
   run clock2 terminate_fails (invoke clock2 Shutdown two_sessions) =
     (\<lparr>sessions = [], sessionTimeout = 600000, cleanupInterval = None, cleanupIntervalMs = 60000,
       reads = 4, constructed = 2, envCalls = [Init 0, Init 1, Terminate 0, Terminate 1]\<rparr>, RVoid)"
proof -
  have d: "distinct (map fst (sessions two_sessions))"
    by (simp add: two_sessions_eq)
  have r: "run clock2 terminate_fails (invoke clock2 Shutdown two_sessions) =
     (\<lparr>sessions = [], sessionTimeout = 600000, cleanupInterval = None, cleanupIntervalMs = 60000,
       reads = 4, constructed = 2, envCalls = [Init 0, Init 1, Terminate 0, Terminate 1]\<rparr>, RVoid)"
    by (simp add: two_sessions_eq terminate_fails_def model_defs)
  show ?thesis
    using d r shutdown_drains [OF d r, where p = 0 and ps = "\<lambda>p. None" and es = "[]"
        and q = 0 and r = created_a]
    by simp
qed

section \<open>Teardown failures\<close>



section \<open>Removing an absent session\<close>

text \<open>
  C9. For every id that is not in the registry, \<^verbatim>\<open>removeSession(id)\<close> returns
  \<^verbatim>\<open>false\<close> at once: the promise is settled with \<open>RBool False\<close> (no error), and
  the manager, with its registry and every session in it, is unchanged.
\<close>

theorem removeSession_absent:
  "map_of (sessions m) sessionId = None \<Longrightarrow>
     invoke clk (RemoveSession sessionId) m = (m, Settled (RBool False)) \<and>
     run clk envs (invoke clk (RemoveSession sessionId) m) = (m, RBool False)"
  by (simp add: removeSession_def return_to_def)

theorem removeSession_absent_witness:
  "map_of (sessions (new_SessionManager 10)) ''missing'' = None \<and>
   invoke (\<lambda>n. int n) (RemoveSession ''missing'') (new_SessionManager 10)
     = (new_SessionManager 10, Settled (RBool False)) \<and>
   run (\<lambda>n. int n) (\<lambda>c. Resolved) (invoke (\<lambda>n. int n) (RemoveSession ''missing'') (new_SessionManager 10))
     = (new_SessionManager 10, RBool False)"
  using removeSession_absent [of "new_SessionManager 10" "''missing''" "\<lambda>n. int n" "\<lambda>c. Resolved"]
  by (simp add: new_SessionManager_def startCleanupInterval_def)

section \<open>Creation and access times\<close>

text \<open>\<^verbatim>\<open>createSession\<close> calls \<^verbatim>\<open>Date.now()\<close> once for \<open>createdAt\<close> and once
  more for \<open>lastAccessedAt\<close>. On a clock that advances between the two readings
  the new session has \<open>createdAt = 1000\<close> and \<open>lastAccessedAt = 1001\<close>: the two
  fields are not the same instant.\<close>

theorem created_before_accessed_counterexample:
  "mono clock1 \<and>
   run clock1 (\<lambda>c. Resolved) (invoke clock1 (CreateSession ''a'') (new_SessionManager 10)) =
     ((new_SessionManager 10)
        \<lparr>sessions := [(''a'', \<lparr>id' = ''a'', environment = 0, createdAt = 1000, lastAccessedAt = 1001\<rparr>)],
         reads := 2, constructed := 1, envCalls := [Init 0]\<rparr>,
      RSession \<lparr>id' = ''a'', environment = 0, createdAt = 1000, lastAccessedAt = 1001\<rparr>)"
  by (simp add: mono_clock1) (simp add: clock1_def model_defs)

text \<open>
  C10, as the code has it. With a clock that never goes back, in every state the
  manager can reach from its construction, every session stored in the registry has
  \<open>createdAt \<le> lastAccessedAt\<close>. Creation takes \<open>createdAt\<close> and
  \<open>lastAccessedAt\<close> from two successive readings of the clock, the first not
  after the second; a lookup changes \<open>lastAccessedAt\<close> only, to a time not before
  its old value; and after any event the session stored under an id has the
  \<open>createdAt\<close> it had before, unless the event is the end of a
  \<^verbatim>\<open>createSession\<close> for that id, which stores a new session.
\<close>

theorem createdAt_le_lastAccessedAt:
  assumes "mono clk"
      and "r = exec clk es (start (new_SessionManager minutes))"
  shows "(\<forall>p \<in> set (sessions (mgr r)). createdAt (snd p) \<le> lastAccessedAt (snd p)) \<and>
         snd (createSession_resume clk k e Resolved m) =
           Settled (RSession \<lparr>id' = k, environment = e, createdAt = clk (reads m),
                              lastAccessedAt = clk (Suc (reads m))\<rparr>) \<and>
         clk (reads m) \<le> clk (Suc (reads m)) \<and>
         (\<forall>sessionId s. map_of (sessions (mgr r)) sessionId = Some s \<longrightarrow>
            snd (getSession clk sessionId (mgr r)) = Some (s\<lparr>lastAccessedAt := clk (reads (mgr r))\<rparr>) \<and>
            lastAccessedAt s \<le> clk (reads (mgr r)) \<and>
            (\<forall>ev s'. map_of (sessions (mgr (step clk ev r))) sessionId = Some s' \<longrightarrow>
               createdAt s' = createdAt s \<or>
               (\<exists>p env. ev = Settle p Resolved \<and>
                  promises r p = Some (Pending (AwaitInit sessionId env)) \<and>
                  environment s' = env)))"
proof -
  have st: "stamped clk (mgr r)"
    using assms by (simp add: reachable_stamped)
  have d: "distinct (map fst (sessions (mgr r)))"
    using assms(2) by (simp add: reachable_distinct)
  have all: "createdAt (snd p) \<le> lastAccessedAt (snd p)" if "p \<in> set (sessions (mgr r))" for p
  proof -
    have "map_of (sessions (mgr r)) (fst p) = Some (snd p)"
      using d that by (simp add: map_of_eq_Some_iff)
    with st show ?thesis by (simp add: stamped_def)
  qed
  have create: "snd (createSession_resume clk k e Resolved m) =
           Settled (RSession \<lparr>id' = k, environment = e, createdAt = clk (reads m),
                              lastAccessedAt = clk (Suc (reads m))\<rparr>)"
    by (simp add: createSession_resume_def date_now_def Let_def)
  have later: "clk (reads m) \<le> clk (Suc (reads m))"
    using assms(1) by (simp add: monoD)
  have look: "snd (getSession clk sessionId (mgr r)) = Some (s\<lparr>lastAccessedAt := clk (reads (mgr r))\<rparr>) \<and>
            lastAccessedAt s \<le> clk (reads (mgr r)) \<and>
            (\<forall>ev s'. map_of (sessions (mgr (step clk ev r))) sessionId = Some s' \<longrightarrow>
               createdAt s' = createdAt s \<or>
               (\<exists>p env. ev = Settle p Resolved \<and>
                  promises r p = Some (Pending (AwaitInit sessionId env)) \<and>
                  environment s' = env))"
    if present: "map_of (sessions (mgr r)) sessionId = Some s" for sessionId s
  proof -
    have a: "snd (getSession clk sessionId (mgr r)) = Some (s\<lparr>lastAccessedAt := clk (reads (mgr r))\<rparr>)"
      using getSession_present [OF present, of clk] by simp
    have b: "lastAccessedAt s \<le> clk (reads (mgr r))"
      using st present by (simp add: stamped_def)
    have c: "createdAt s' = createdAt s \<or>
               (\<exists>p env. ev = Settle p Resolved \<and>
                  promises r p = Some (Pending (AwaitInit sessionId env)) \<and>
                  environment s' = env)"
      if "map_of (sessions (mgr (step clk ev r))) sessionId = Some s'" for ev s'
      using step_entry [OF that] present by auto
    show ?thesis using a b c by blast
  qed
  show ?thesis
    using all create later look by blast
qed

theorem createdAt_le_lastAccessedAt_witness:
  "mono clock1 \<and>
   sessions (mgr created_a)
     = [(''a'', \<lparr>id' = ''a'', environment = 0, createdAt = 1000, lastAccessedAt = 1001\<rparr>)] \<and>
   (1000 :: int) \<le> 1001 \<and>
   snd (getSession clock1 ''a'' (mgr created_a))
     = Some \<lparr>id' = ''a'', environment = 0, createdAt = 1000, lastAccessedAt = 1002\<rparr>"
  using mono_clock1 createdAt_le_lastAccessedAt [OF mono_clock1 created_a_def, of "''a''" 0 one_session]
  by (simp add: mgr_created_a one_session_eq clock1_def model_defs)

end
